theory Spec2Isabelle
  imports Main "HOL-Library.Word"
begin

unbundle bit_operations_syntax

section \<open>Bytes and little-endian fields\<close>

type_synonym byte = "8 word"

text \<open>Every \<^verbatim>\<open>throw new Error(...)\<close> site of the sources is one constructor; the
  arguments are the numbers interpolated into the message. \<open>RangeError\<close> and
  \<open>TypeError\<close> are the exceptions the runtime raises on a buffer access out of range
  and on a field access of \<^verbatim>\<open>undefined\<close>.\<close>

datatype error =
    RangeError
  | TypeError
  | TruncatedWrapped nat
  | InflateFailed
  | SizeMismatch nat nat
  | UnsupportedWrapper nat nat nat
  | UnexpectedMagic
  | SuspiciousChannelCount nat
  | InvalidPagesPerStripe
  | CouldNotInferPageSize
  | NaNOffset
  | DtNodeOutOfRange nat
  | MetaIndexOutOfRange nat
  | FatBlockOutOfRange nat
  | StringLoop nat
  | StringRecordOutOfRange nat
  | DatPathRequired
  | InvalidStartBlock
  | ShortDatRead nat nat nat
  | UnexpectedEndOfFat nat
  | UnexpectedExtractedSize nat nat

text \<open>Sequencing of fallible steps: the first exception propagates.\<close>

definition bindE :: "error + 'a \<Rightarrow> ('a \<Rightarrow> error + 'b) \<Rightarrow> error + 'b" where
  "bindE r f = (case r of Inl e \<Rightarrow> Inl e | Inr v \<Rightarrow> f v)"

fun le_nat :: "byte list \<Rightarrow> nat" where
  "le_nat [] = 0"
| "le_nat (b # bs) = unat b + 256 * le_nat bs"

text \<open>\<^verbatim>\<open>buf.readUInt32LE(off)\<close>: Node raises a range error when the four bytes
  are not inside the buffer.\<close>

definition readU32 :: "byte list \<Rightarrow> nat \<Rightarrow> error + nat" where
  "readU32 buf off =
     (if off + 4 \<le> length buf then Inr (le_nat (take 4 (drop off buf))) else Inl RangeError)"

text \<open>\<^verbatim>\<open>buf.readInt32LE(off)\<close>: the same four bytes, read as two's complement.\<close>

definition readI32 :: "byte list \<Rightarrow> nat \<Rightarrow> error + int" where
  "readI32 buf off =
     bindE (readU32 buf off) (\<lambda>u. Inr (if u \<ge> 2147483648 then int u - 4294967296 else int u))"

text \<open>\<^verbatim>\<open>out.writeUInt32LE(value >>> 0, 0)\<close>: the value is reduced modulo \<open>2^32\<close>
  and stored least significant byte first.\<close>

definition packU32 :: "nat \<Rightarrow> byte list" where
  "packU32 v = [of_nat v, of_nat (v div 256), of_nat (v div 65536), of_nat (v div 16777216)]"

text \<open>\<^verbatim>\<open>header.writeBigUInt64LE(v, off)\<close>: eight bytes, least significant first.\<close>

definition packU64 :: "nat \<Rightarrow> byte list" where
  "packU64 v = packU32 v @ packU32 (v div 4294967296)"

section \<open>Block codec: the 32-byte file wrapper\<close>

text \<open>zlib is an external library. Its two entry points are parameters of the codec:
  \<^verbatim>\<open>zlib.deflateSync(raw, {level})\<close> and \<^verbatim>\<open>zlib.inflateSync(payload)\<close>, the latter
  returning \<open>None\<close> where zlib raises.\<close>

type_synonym deflate_fn = "byte list \<Rightarrow> nat \<Rightarrow> byte list"
type_synonym inflate_fn = "byte list \<Rightarrow> byte list option"

definition FILE_WRAPPER_HEADER_SIZE :: nat where
  "FILE_WRAPPER_HEADER_SIZE = 0x20"

definition FILETIME :: nat where
  "FILETIME = 0x01ca8b14a4e00000"

definition buildFileWrapper :: "deflate_fn \<Rightarrow> byte list \<Rightarrow> nat \<Rightarrow> byte list" where
  "buildFileWrapper deflate rawData compressLevel =
     (let compressed = deflate rawData compressLevel;
          header = packU32 1 @ packU32 (length rawData) @
                   packU64 FILETIME @ packU64 FILETIME @ packU64 FILETIME
      in header @ compressed)"

definition decodeFilePayload :: "inflate_fn \<Rightarrow> byte list \<Rightarrow> error + byte list" where
  "decodeFilePayload inflate raw =
     (if length raw < FILE_WRAPPER_HEADER_SIZE then Inl (TruncatedWrapped (length raw))
      else
        bindE (readU32 raw 0) (\<lambda>typ.
        bindE (readU32 raw 4) (\<lambda>declaredSize.
          let payload = drop FILE_WRAPPER_HEADER_SIZE raw in
          if typ = 1 then
            (case inflate payload of
               None \<Rightarrow> Inl InflateFailed
             | Some out \<Rightarrow>
                 if declaredSize \<noteq> 0 \<and> length out \<noteq> declaredSize
                 then Inl (SizeMismatch (length out) declaredSize)
                 else Inr out)
          else if declaredSize \<noteq> 0 \<and> length payload \<noteq> declaredSize
          then Inl (UnsupportedWrapper typ (length payload) declaredSize)
          else Inr payload)))"

text \<open>A codec that stores the bytes as they are: the simplest pair of functions that
  satisfies zlib's contract, used to run the codec on concrete buffers.\<close>

definition stored_deflate :: deflate_fn where
  "stored_deflate raw level = raw"

definition stored_inflate :: inflate_fn where
  "stored_inflate payload = Some payload"

text \<open>A wrapped buffer of type 0 that declares size 0 and carries one payload byte.\<close>

definition untyped_buf :: "byte list" where
  "untyped_buf = packU32 0 @ packU32 0 @ replicate 24 0 @ [0x41]"

section \<open>Striped page layout of the index file\<close>

record IdxChannel =
  pagesPerStripe :: nat
  sizeBytes :: nat

definition candidates :: "nat list" where
  "candidates = [0x200, 0x400, 0x800, 0x1000, 0x2000, 0x4000, 0x8000]"

text \<open>The inner loop over the channels: \<open>ok\<close> stays true unless a channel's size
  exceeds its capacity.\<close>

definition channels_fit :: "IdxChannel list \<Rightarrow> nat \<Rightarrow> nat \<Rightarrow> bool" where
  "channels_fit chs stripes pageSize =
     list_all (\<lambda>ch. \<not> sizeBytes ch > stripes * pagesPerStripe ch * pageSize) chs"

text \<open>The body of the loop over the candidates: \<open>True\<close> where the body reaches
  \<^verbatim>\<open>viable.push(pageSize)\<close>, \<open>False\<close> at each \<^verbatim>\<open>continue\<close>.\<close>

definition page_size_viable :: "nat \<Rightarrow> IdxChannel list \<Rightarrow> nat \<Rightarrow> nat \<Rightarrow> bool" where
  "page_size_viable fileSize chs sumPages pageSize =
     (if fileSize mod pageSize \<noteq> 0 then False
      else let totalPages = fileSize div pageSize in
        if totalPages < 2 then False
        else let dataPages = totalPages - 1 in
          if dataPages mod sumPages \<noteq> 0 then False
          else let stripes = dataPages div sumPages in
            channels_fit chs stripes pageSize)"

definition inferPageSize :: "nat \<Rightarrow> IdxChannel list \<Rightarrow> error + nat" where
  "inferPageSize fileSize chs =
     (let pps = map pagesPerStripe chs;
          sumPages = sum_list pps
      in if sumPages \<le> 0 then Inl InvalidPagesPerStripe
         else let viable = filter (page_size_viable fileSize chs sumPages) candidates in
           if length viable = 0 then Inl CouldNotInferPageSize
           else if 0x1000 \<in> set viable then Inr 0x1000
           else Inr (Min (set viable)))"

text \<open>The channel table of an index written with the default stripe shape \<open>(4, 8, 1, 4)\<close>.\<close>

definition default_channels :: "IdxChannel list" where
  "default_channels =
     [\<lparr>pagesPerStripe = 4, sizeBytes = 40\<rparr>, \<lparr>pagesPerStripe = 8, sizeBytes = 128\<rparr>,
      \<lparr>pagesPerStripe = 1, sizeBytes = 16\<rparr>, \<lparr>pagesPerStripe = 4, sizeBytes = 8\<rparr>]"

section \<open>The index reader\<close>

record PriusIdx =
  idx_channels :: "IdxChannel list"
  idx_pageSize :: nat
  idx_stripes :: nat
  idx_mm :: "byte list"
  idx_sumPages :: nat
  idx_chanPrefixPages :: "nat list"

definition MAGIC :: "byte list" where
  "MAGIC = [0x41, 0x42, 0x43, 0x44]"

text \<open>The loop of the constructor that reads \<open>channelCount\<close> pairs
  \<open>(pagesPerStripe, sizeBytes)\<close> from offset 8 on.\<close>

fun read_channels :: "byte list \<Rightarrow> nat \<Rightarrow> nat \<Rightarrow> error + IdxChannel list" where
  "read_channels buf 0 off = Inr []"
| "read_channels buf (Suc n) off =
     (case readU32 buf off of Inl e \<Rightarrow> Inl e | Inr pps \<Rightarrow>
      case readU32 buf (off + 4) of Inl e \<Rightarrow> Inl e | Inr sz \<Rightarrow>
      case read_channels buf n (off + 8) of Inl e \<Rightarrow> Inl e | Inr rest \<Rightarrow>
        Inr (\<lparr>pagesPerStripe = pps, sizeBytes = sz\<rparr> # rest))"

text \<open>\<^verbatim>\<open>new PriusIdx(idxPath)\<close>, on the bytes of the file.\<close>

definition openIdx :: "byte list \<Rightarrow> error + PriusIdx" where
  "openIdx buf =
     (if take 4 buf \<noteq> MAGIC then Inl UnexpectedMagic
      else bindE (readU32 buf 4) (\<lambda>channelCount.
        if channelCount \<le> 0 \<or> channelCount > 16 then Inl (SuspiciousChannelCount channelCount)
        else bindE (read_channels buf channelCount 8) (\<lambda>chs.
          bindE (inferPageSize (length buf) chs) (\<lambda>ps.
            let sumP = sum_list (map pagesPerStripe chs);
                totalPages = length buf div ps;
                dataPages = totalPages - 1
            in Inr \<lparr>idx_channels = chs, idx_pageSize = ps,
                     idx_stripes = dataPages div sumP, idx_mm = buf, idx_sumPages = sumP,
                     idx_chanPrefixPages =
                       map (\<lambda>i. sum_list (map pagesPerStripe (take i chs))) [0..<length chs]\<rparr>))))"

text \<open>\<^verbatim>\<open>this.channels[channel]\<close> is \<^verbatim>\<open>undefined\<close> past the table, and reading a field
  of it raises a type error. With \<open>pagesPerStripe = 0\<close> the quotient and the remainder
  are not numbers, and neither is the offset: every use of it raises.\<close>

definition physOffsetForChannelPage :: "PriusIdx \<Rightarrow> nat \<Rightarrow> nat \<Rightarrow> error + nat" where
  "physOffsetForChannelPage ix channel channelPage =
     (if channel \<ge> length (idx_channels ix) then Inl TypeError
      else let pps = pagesPerStripe (idx_channels ix ! channel) in
        if pps = 0 then Inl NaNOffset
        else let stripe = channelPage div pps;
                 pageInStripe = channelPage mod pps;
                 physPage = stripe * idx_sumPages ix + idx_chanPrefixPages ix ! channel + pageInStripe
             in Inr (idx_pageSize ix + physPage * idx_pageSize ix))"

definition channelOffsetToFileOffset :: "PriusIdx \<Rightarrow> nat \<Rightarrow> nat \<Rightarrow> error + nat" where
  "channelOffsetToFileOffset ix channel channelOffset =
     (let page = channelOffset div idx_pageSize ix;
          inPage = channelOffset mod idx_pageSize ix
      in bindE (physOffsetForChannelPage ix channel page) (\<lambda>p. Inr (p + inPage)))"

text \<open>\<^verbatim>\<open>this.mm.copy(out, page * pageSize, off, off + pageSize)\<close> into the zero-filled
  \<open>out\<close>: the bytes of the file from \<open>off\<close>, at most \<open>pageSize\<close> of them, and zeros
  where the file ends early.\<close>

definition copy_page :: "byte list \<Rightarrow> nat \<Rightarrow> nat \<Rightarrow> byte list" where
  "copy_page buf off n = (let got = take n (drop off buf) in got @ replicate (n - length got) 0)"

fun gather_pages :: "PriusIdx \<Rightarrow> nat \<Rightarrow> nat list \<Rightarrow> error + byte list" where
  "gather_pages ix channel [] = Inr []"
| "gather_pages ix channel (page # pages) =
     (case physOffsetForChannelPage ix channel page of Inl e \<Rightarrow> Inl e | Inr off \<Rightarrow>
      case gather_pages ix channel pages of Inl e \<Rightarrow> Inl e | Inr rest \<Rightarrow>
        Inr (copy_page (idx_mm ix) off (idx_pageSize ix) @ rest))"

text \<open>\<^verbatim>\<open>readChannel\<close>. The channel cache only memoises the result; the archive reads
  each channel once, in its constructor.\<close>

definition readChannel :: "PriusIdx \<Rightarrow> nat \<Rightarrow> error + byte list" where
  "readChannel ix channel =
     (if channel \<ge> length (idx_channels ix) then Inl TypeError
      else let ch = idx_channels ix ! channel;
               pageCount = (sizeBytes ch + idx_pageSize ix - 1) div idx_pageSize ix
           in bindE (gather_pages ix channel [0..<pageCount]) (\<lambda>out.
                Inr (take (sizeBytes ch) out)))"

section \<open>The archive reader\<close>

definition DAT_BLOCK_SIZE :: nat where "DAT_BLOCK_SIZE = 0x200"
definition DT_NODE_SIZE :: nat where "DT_NODE_SIZE = 0x14"
definition META_SIZE :: nat where "META_SIZE = 0x10"

record DtNode =
  metaIndex :: nat
  bitIndex :: int
  nameRaw :: nat
  leftRaw :: nat
  rightRaw :: nat

record MetaRecord =
  flags :: nat
  msize :: nat
  startBlock :: nat
  extra :: nat

text \<open>The archive handle: the index, the data file (absent when no \<^verbatim>\<open>datPath\<close> was
  given), the four channel buffers and the cache of decoded strings.\<close>

record PriusArchive =
  arc_idx :: PriusIdx
  arc_dat :: "byte list option"
  arc_dt :: "byte list"
  arc_strings :: "byte list"
  arc_meta :: "byte list"
  arc_fat :: "byte list"
  arc_stringCache :: "nat \<rightharpoonup> byte list"

definition openArchive :: "byte list \<Rightarrow> byte list option \<Rightarrow> error + PriusArchive" where
  "openArchive idxBytes datBytes =
     bindE (openIdx idxBytes) (\<lambda>ix.
     bindE (readChannel ix 0) (\<lambda>c0.
     bindE (readChannel ix 1) (\<lambda>c1.
     bindE (readChannel ix 2) (\<lambda>c2.
     bindE (readChannel ix 3) (\<lambda>c3.
       Inr \<lparr>arc_idx = ix, arc_dat = datBytes, arc_dt = c0, arc_strings = c1,
            arc_meta = c2, arc_fat = c3, arc_stringCache = Map.empty\<rparr>)))))"

definition dtNodeCount :: "PriusArchive \<Rightarrow> nat" where
  "dtNodeCount arc = length (arc_dt arc) div DT_NODE_SIZE"

definition metaCount :: "PriusArchive \<Rightarrow> nat" where
  "metaCount arc = length (arc_meta arc) div META_SIZE"

definition fatEntryCount :: "PriusArchive \<Rightarrow> nat" where
  "fatEntryCount arc = length (arc_fat arc) div 4"

definition dtNode :: "PriusArchive \<Rightarrow> nat \<Rightarrow> error + DtNode" where
  "dtNode arc nodeIndex =
     (let off = nodeIndex * DT_NODE_SIZE in
      if off + DT_NODE_SIZE > length (arc_dt arc) then Inl (DtNodeOutOfRange nodeIndex)
      else bindE (readU32 (arc_dt arc) off) (\<lambda>mi.
           bindE (readI32 (arc_dt arc) (off + 4)) (\<lambda>bi.
           bindE (readU32 (arc_dt arc) (off + 8)) (\<lambda>nr.
           bindE (readU32 (arc_dt arc) (off + 12)) (\<lambda>l.
           bindE (readU32 (arc_dt arc) (off + 16)) (\<lambda>r.
             Inr \<lparr>metaIndex = mi, bitIndex = bi, nameRaw = nr, leftRaw = l, rightRaw = r\<rparr>))))))"

definition unpackMetaRecord :: "byte list \<Rightarrow> nat \<Rightarrow> error + MetaRecord" where
  "unpackMetaRecord buf off =
     bindE (readU32 buf off) (\<lambda>f.
     bindE (readU32 buf (off + 4)) (\<lambda>s.
     bindE (readU32 buf (off + 8)) (\<lambda>b.
     bindE (readU32 buf (off + 12)) (\<lambda>x.
       Inr \<lparr>flags = f, msize = s, startBlock = b, extra = x\<rparr>))))"

definition metaRecord :: "PriusArchive \<Rightarrow> nat \<Rightarrow> error + MetaRecord" where
  "metaRecord arc metaIdx =
     (let off = metaIdx * META_SIZE in
      if off + META_SIZE > length (arc_meta arc) then Inl (MetaIndexOutOfRange metaIdx)
      else unpackMetaRecord (arc_meta arc) off)"

definition fatNext :: "byte list \<Rightarrow> nat \<Rightarrow> error + nat" where
  "fatNext fatBuf blockId =
     (let off = blockId * 4 in
      if off + 4 > length fatBuf then Inl (FatBlockOutOfRange blockId)
      else readU32 fatBuf off)"

subsection \<open>Reading a payload along its FAT chain\<close>

text \<open>The check after the loop of \<^verbatim>\<open>readRawMetaBytes\<close>.\<close>

definition finish_read :: "nat \<Rightarrow> nat \<Rightarrow> byte list \<Rightarrow> error + byte list" where
  "finish_read sz remaining out =
     (if remaining \<noteq> 0 then Inl (UnexpectedExtractedSize (sz - remaining) sz) else Inr out)"

text \<open>One iteration of \<^verbatim>\<open>for (let i = 0; i < blockCount; i += 1)\<close>. The state is
  \<open>(block, remaining, out, consulted)\<close>; its last component records the blocks at which
  \<^verbatim>\<open>fatNext\<close> was called, in order. \<^verbatim>\<open>fs.readSync\<close> returns the bytes the file has
  at \<open>datOff\<close>, at most \<open>take\<close> of them. The iteration ends the function (an
  exception, or the \<^verbatim>\<open>break\<close> followed by the check after the loop) or hands the next
  state to the following iteration.\<close>

datatype ('r, 's) iteration = Done 'r | Continue 's

type_synonym read_state = "nat \<times> nat \<times> byte list \<times> nat list"

definition read_iteration ::
    "byte list \<Rightarrow> byte list \<Rightarrow> nat \<Rightarrow> read_state
      \<Rightarrow> ((error + byte list) \<times> nat list, read_state) iteration" where
  "read_iteration fatBuf d sz st =
     (case st of (block, remaining, out, consulted) \<Rightarrow>
      let take_n = (if remaining \<ge> 0x200 then 0x200 else remaining);
          datOff = block * 0x200;
          got = take take_n (drop datOff d)
      in if length got \<noteq> take_n
         then Done (Inl (ShortDatRead block (length got) take_n), consulted)
         else let out' = out @ got; remaining' = remaining - take_n in
           if remaining' \<le> 0 then Done (finish_read sz remaining' out', consulted)
           else (case fatNext fatBuf block of
                   Inl e \<Rightarrow> Done (Inl e, consulted @ [block])
                 | Inr nxt \<Rightarrow>
                     if nxt = 0xffffffff
                     then Done (Inl (UnexpectedEndOfFat block), consulted @ [block])
                     else Continue (nxt, remaining', out', consulted @ [block])))"

text \<open>The loop, by recursion on the number of iterations left; when none is left the
  check after the loop decides.\<close>

fun read_loop :: "byte list \<Rightarrow> byte list \<Rightarrow> nat \<Rightarrow> nat \<Rightarrow> read_state
                    \<Rightarrow> (error + byte list) \<times> nat list" where
  "read_loop fatBuf d sz 0 st =
     (case st of (block, remaining, out, consulted) \<Rightarrow> (finish_read sz remaining out, consulted))"
| "read_loop fatBuf d sz (Suc k) st =
     (case read_iteration fatBuf d sz st of
        Done r \<Rightarrow> r
      | Continue st' \<Rightarrow> read_loop fatBuf d sz k st')"

definition readRawMetaBytes_log ::
    "byte list \<Rightarrow> byte list option \<Rightarrow> MetaRecord \<Rightarrow> (error + byte list) \<times> nat list" where
  "readRawMetaBytes_log fatBuf datBytes m =
     (if msize m = 0 then (Inr [], [])
      else if startBlock m = 0xffffffff then (Inl InvalidStartBlock, [])
      else case datBytes of
             None \<Rightarrow> (Inl DatPathRequired, [])
           | Some d \<Rightarrow>
               let blockCount = (msize m + 0x1ff) div 0x200
               in read_loop fatBuf d (msize m) blockCount (startBlock m, msize m, [], []))"

definition readRawMetaBytes :: "PriusArchive \<Rightarrow> MetaRecord \<Rightarrow> error + byte list" where
  "readRawMetaBytes arc m = fst (readRawMetaBytes_log (arc_fat arc) (arc_dat arc) m)"

definition readFileBytes :: "inflate_fn \<Rightarrow> PriusArchive \<Rightarrow> nat \<Rightarrow> error + byte list" where
  "readFileBytes inflate arc metaIdx =
     bindE (metaRecord arc metaIdx) (\<lambda>m.
     bindE (readRawMetaBytes arc m) (\<lambda>raw.
       decodeFilePayload inflate raw))"

text \<open>The \<open>i\<close>-th block of the chain that starts at block \<open>b\<close>: \<open>i\<close> successor lookups
  in the FAT, \<open>None\<close> where a lookup leaves the table.\<close>

fun chain_block :: "byte list \<Rightarrow> nat \<Rightarrow> nat \<Rightarrow> nat option" where
  "chain_block fatBuf b 0 = Some b"
| "chain_block fatBuf b (Suc i) =
     (case fatNext fatBuf b of Inl e \<Rightarrow> None | Inr nxt \<Rightarrow> chain_block fatBuf nxt i)"

text \<open>A chain of blocks: each block but the last has the next one as its FAT entry, and
  that entry is not the end-of-chain mark. Nothing is asked of the entry of the last
  block.\<close>

fun is_chain :: "byte list \<Rightarrow> nat list \<Rightarrow> bool" where
  "is_chain fatBuf (blk # nxt # rest) =
     (fatNext fatBuf blk = Inr nxt \<and> nxt \<noteq> 0xffffffff \<and> is_chain fatBuf (nxt # rest))"
| "is_chain fatBuf [blk] = True"
| "is_chain fatBuf [] = True"

text \<open>The data file holds, for each block of the list, the bytes a payload of
  \<open>remaining\<close> bytes takes from it (512, or what is left in the last block); and the
  bytes themselves.\<close>

fun blocks_readable :: "byte list \<Rightarrow> nat list \<Rightarrow> nat \<Rightarrow> bool" where
  "blocks_readable d [] remaining = True"
| "blocks_readable d (blk # rest) remaining =
     (blk * 512 + min 512 remaining \<le> length d \<and> blocks_readable d rest (remaining - 512))"

fun blocks_data :: "byte list \<Rightarrow> nat list \<Rightarrow> nat \<Rightarrow> byte list" where
  "blocks_data d [] remaining = []"
| "blocks_data d (blk # rest) remaining =
     take (min 512 remaining) (drop (blk * 512) d) @ blocks_data d rest (remaining - 512)"

text \<open>A two-block payload of 600 bytes at blocks 1 and 2, in a FAT whose entry for block 2
  is 0 rather than the end-of-chain mark.\<close>

definition open_chain_fat :: "byte list" where
  "open_chain_fat = packU32 0 @ packU32 2 @ packU32 0"

definition open_chain_dat :: "byte list" where
  "open_chain_dat = replicate 512 0 @ replicate 512 1 @ replicate 512 2"

definition open_chain_meta :: MetaRecord where
  "open_chain_meta = \<lparr>flags = 1, msize = 600, startBlock = 1, extra = 0\<rparr>"

subsection \<open>Decoding a string from the string table\<close>

text \<open>One iteration of the loop of \<^verbatim>\<open>stringBytes\<close>. The state is \<open>(seen, chunks, idx)\<close>.
  \<^verbatim>\<open>header & 0x7fffffff\<close> keeps the low 31 bits; \<^verbatim>\<open>chunk.indexOf(0)\<close> finds the first
  NUL of the 60 payload bytes, and \<^verbatim>\<open>chunk.subarray(0, nul)\<close> is what precedes it.\<close>

type_synonym string_state = "nat list \<times> byte list list \<times> nat"

definition string_iteration ::
    "byte list \<Rightarrow> string_state \<Rightarrow> (error + byte list, string_state) iteration" where
  "string_iteration strs st =
     (case st of (seen, chunks, i) \<Rightarrow>
      if i \<in> set seen then Done (Inl (StringLoop i))
      else let off = i * 0x40 in
        if off + 0x40 > length strs then Done (Inl (StringRecordOutOfRange i))
        else (case readU32 strs off of
                Inl e \<Rightarrow> Done (Inl e)
              | Inr header \<Rightarrow>
                  let nxt = header mod 2147483648;
                      chunk = take 60 (drop (off + 4) strs)
                  in if 0 \<in> set chunk
                     then Done (Inr (concat (chunks @ [takeWhile (\<lambda>b. b \<noteq> 0) chunk])))
                     else if nxt = 0 then Done (Inr (concat (chunks @ [chunk])))
                     else Continue (i # seen, chunks @ [chunk], nxt)))"

text \<open>The records of the table that the walk has not visited: each iteration that
  continues visits one more, so the loop ends.\<close>

definition unseen :: "byte list \<Rightarrow> string_state \<Rightarrow> nat set" where
  "unseen strs st = {j. j * 0x40 + 0x40 \<le> length strs} - set (fst st)"

lemma finite_unseen: "finite (unseen strs st)"
proof -
  have "{j. j * 0x40 + 0x40 \<le> length strs} \<subseteq> {..length strs}" by auto
  then have "finite {j. j * 0x40 + 0x40 \<le> length strs}" by (rule finite_subset) simp
  then show ?thesis by (simp add: unseen_def)
qed

lemma string_iteration_unseen:
  assumes "string_iteration strs st = Continue st'"
  shows "unseen strs st' \<subset> unseen strs st"
proof -
  obtain seen chunks i where st: "st = (seen, chunks, i)" by (cases st) auto
  from assms st have i: "i \<notin> set seen" "i * 0x40 + 0x40 \<le> length strs" and s: "fst st' = i # seen"
    by (auto simp: string_iteration_def Let_def split: if_splits sum.splits)
  from i st have "i \<in> unseen strs st" by (simp add: unseen_def)
  moreover from s have "i \<notin> unseen strs st'" by (simp add: unseen_def)
  moreover from s st have "unseen strs st' \<subseteq> unseen strs st" by (auto simp: unseen_def)
  ultimately show ?thesis by blast
qed

function string_loop :: "byte list \<Rightarrow> string_state \<Rightarrow> error + byte list" where
  "string_loop strs st =
     (case string_iteration strs st of
        Done r \<Rightarrow> r
      | Continue st' \<Rightarrow> string_loop strs st')"
  by pat_completeness auto
termination string_loop
proof (relation "measure (\<lambda>(strs, st). card (unseen strs st))")
  show "wf (measure (\<lambda>(strs, st). card (unseen strs st)))" by simp
next
  fix strs st st'
  assume "string_iteration strs st = Continue st'"
  then have "unseen strs st' \<subset> unseen strs st" by (rule string_iteration_unseen)
  then have "card (unseen strs st') < card (unseen strs st)"
    by (rule psubset_card_mono [OF finite_unseen])
  then show "((strs, st'), (strs, st)) \<in> measure (\<lambda>(strs, st). card (unseen strs st))"
    by simp
qed

declare string_loop.simps [simp del]

text \<open>\<^verbatim>\<open>stringBytes\<close>, with the cache of decoded strings held by the archive. The index is
  the low 31 bits of a node's \<open>nameRaw\<close> or a record number, never negative.\<close>

definition stringBytes :: "PriusArchive \<Rightarrow> nat \<Rightarrow> (error + byte list) \<times> PriusArchive" where
  "stringBytes arc stringIndex =
     (case arc_stringCache arc stringIndex of
        Some cached \<Rightarrow> (Inr cached, arc)
      | None \<Rightarrow>
          (case string_loop (arc_strings arc) ([], [], stringIndex) of
             Inl e \<Rightarrow> (Inl e, arc)
           | Inr out \<Rightarrow>
               (Inr out, arc\<lparr>arc_stringCache := (arc_stringCache arc)(stringIndex \<mapsto> out)\<rparr>)))"

section \<open>The string-table builder\<close>

definition STRING_RECORD_SIZE :: nat where "STRING_RECORD_SIZE = 0x40"
definition STRING_PAYLOAD_SIZE :: nat where "STRING_PAYLOAD_SIZE = 0x3c"

text \<open>The builder: its records, and the cache from cache keys (the archive path as a
  string) to first-record indices.\<close>

record 'k StringTableBuilder =
  stb_records :: "byte list list"
  stb_cache :: "'k \<rightharpoonup> nat"

text \<open>The constructor: record 0 has the header \<open>0x80000000\<close> and the payload \<open>"."\<close>.\<close>

definition rec0 :: "byte list" where
  "rec0 = packU32 0x80000000 @ [0x2e, 0x00] @ replicate 58 0"

definition new_StringTableBuilder :: "'k StringTableBuilder" where
  "new_StringTableBuilder = \<lparr>stb_records = [rec0], stb_cache = Map.empty\<rparr>"

text \<open>\<^verbatim>\<open>for (let i = 0; i < text.length; i += 60) chunks.push(text.subarray(i, i + 60))\<close>\<close>

function chunk_loop :: "byte list \<Rightarrow> nat \<Rightarrow> byte list list" where
  "chunk_loop text i =
     (if i < length text
      then take STRING_PAYLOAD_SIZE (drop i text) # chunk_loop text (i + STRING_PAYLOAD_SIZE)
      else [])"
  by pat_completeness auto
termination chunk_loop
  by (relation "measure (\<lambda>(text, i). length text - i)") (auto simp: STRING_PAYLOAD_SIZE_def)

declare chunk_loop.simps [simp del]

text \<open>\<^verbatim>\<open>(nextIdx | 0x80000000) >>> 0\<close>: the bitwise or of the two numbers as 32-bit
  words, read as unsigned.\<close>

definition or_in_use :: "nat \<Rightarrow> nat" where
  "or_in_use nextIdx = unat ((word_of_nat nextIdx :: 32 word) OR 0x80000000)"

text \<open>One record: a zero-filled buffer of 64 bytes with the header written at 0 and
  the chunk copied in at 4.\<close>

definition make_record :: "nat \<Rightarrow> byte list \<Rightarrow> byte list" where
  "make_record nextIdx chunk =
     packU32 (or_in_use nextIdx) @ chunk @ replicate (STRING_PAYLOAD_SIZE - length chunk) 0"

definition add :: "'k StringTableBuilder \<Rightarrow> byte list \<Rightarrow> 'k \<Rightarrow> nat \<times> 'k StringTableBuilder" where
  "add stb text cacheKey =
     (if length text = 0 then (0, stb)
      else case stb_cache stb cacheKey of
             Some cached \<Rightarrow> (cached, stb)
           | None \<Rightarrow>
               let chunks = chunk_loop text 0;
                   firstIdx = length (stb_records stb);
                   recs = map (\<lambda>i. let isLast = (i = length chunks - 1);
                                       nextIdx = (if isLast then 0 else firstIdx + i + 1)
                                   in make_record nextIdx (chunks ! i))
                              [0..<length chunks]
               in (firstIdx, \<lparr>stb_records = stb_records stb @ recs,
                               stb_cache = (stb_cache stb)(cacheKey \<mapsto> firstIdx)\<rparr>))"

definition build_strings :: "'k StringTableBuilder \<Rightarrow> byte list" where
  "build_strings stb = concat (stb_records stb)"

text \<open>The records the builder appends for a list of chunks when the first of them gets
  index \<open>n\<close>: each header points to the following record, the last one to 0.\<close>

fun chain_records :: "nat \<Rightarrow> byte list list \<Rightarrow> byte list list" where
  "chain_records n [] = []"
| "chain_records n [c] = [make_record 0 c]"
| "chain_records n (c # c' # cs) = make_record (n + 1) c # chain_records (n + 1) (c' # cs)"

text \<open>The chunks of a non-empty text without NUL: all of 60 bytes but the last, which has
  between 1 and 60.\<close>

fun good_chunks :: "byte list list \<Rightarrow> bool" where
  "good_chunks [] = False"
| "good_chunks [c] = (c \<noteq> [] \<and> length c \<le> 60 \<and> 0 \<notin> set c)"
| "good_chunks (c # c' # cs) = (length c = 60 \<and> 0 \<notin> set c \<and> good_chunks (c' # cs))"

text \<open>The invariant of a builder whose cache keys determine the text (\<open>f\<close> maps a cache
  key to its bytes, as the UTF-8 encoding does for the archive path): every record has 64
  bytes, and every cached index decodes, in the table built so far, to the text of its
  key.\<close>

definition stb_inv :: "('k \<Rightarrow> byte list) \<Rightarrow> 'k StringTableBuilder \<Rightarrow> bool" where
  "stb_inv f stb \<longleftrightarrow>
     list_all (\<lambda>r. length r = 64) (stb_records stb) \<and>
     (\<forall>k i. stb_cache stb k = Some i \<longrightarrow>
            string_loop (build_strings stb) ([], [], i) = Inr (f k))"

text \<open>An archive handle over given trie and string channels, with no data file and an
  empty string cache.\<close>

definition memory_archive :: "byte list \<Rightarrow> byte list \<Rightarrow> PriusArchive" where
  "memory_archive dtBytes stringBytes' =
     \<lparr>arc_idx = \<lparr>idx_channels = [], idx_pageSize = 0x1000, idx_stripes = 0, idx_mm = [],
                 idx_sumPages = 0, idx_chanPrefixPages = []\<rparr>,
      arc_dat = None, arc_dt = dtBytes, arc_strings = stringBytes',
      arc_meta = [], arc_fat = [], arc_stringCache = Map.empty\<rparr>"

section \<open>Repack: compression results, data file and FAT accounting\<close>

record CompressedFile =
  cf_index :: nat
  cf_wrapped :: "byte list"
  cf_rawSize :: nat
  cf_rawSha1 :: "byte list"

text \<open>\<^verbatim>\<open>new Array(n)\<close>: \<open>n\<close> holes. Reading a hole gives \<^verbatim>\<open>undefined\<close>; an assignment
  at an index past the end extends the array with holes. An index that is itself
  \<^verbatim>\<open>undefined\<close> names no element, and the assignment leaves the elements as they are.\<close>

type_synonym 'a js_array = "'a option list"

definition array_set :: "'a js_array \<Rightarrow> nat option \<Rightarrow> 'a \<Rightarrow> 'a js_array" where
  "array_set xs oi v =
     (case oi of
        None \<Rightarrow> xs
      | Some i \<Rightarrow> if i < length xs then xs[i := Some v]
                  else xs @ replicate (i - length xs) None @ [Some v])"

definition array_get :: "'a js_array \<Rightarrow> nat \<Rightarrow> 'a option" where
  "array_get xs i = (if i < length xs then xs ! i else None)"

record repack_state =
  totalRawSize :: nat
  currentBlock :: nat
  fatEntries :: "nat list"
  startBlocks :: "nat js_array"
  wrappedSizes :: "nat js_array"
  pendingWrites :: "byte list list"
  pendingBytes :: nat
  datWritten :: "byte list"
  processed :: nat

definition writeThreshold :: nat where
  "writeThreshold = 8 * 1024 * 1024"

text \<open>\<^verbatim>\<open>enqueueWrite\<close> and \<^verbatim>\<open>flushWrites\<close>: \<^verbatim>\<open>fs.writevSync\<close> appends the pending
  buffers to the data file, in order.\<close>

definition enqueueWrite :: "byte list \<Rightarrow> repack_state \<Rightarrow> repack_state" where
  "enqueueWrite buf s =
     (let pw = pendingWrites s @ [buf];
          pb = pendingBytes s + length buf
      in if pb \<ge> writeThreshold
         then s\<lparr>pendingWrites := [], pendingBytes := 0, datWritten := datWritten s @ concat pw\<rparr>
         else s\<lparr>pendingWrites := pw, pendingBytes := pb\<rparr>)"

definition flushWrites :: "repack_state \<Rightarrow> repack_state" where
  "flushWrites s =
     (if length (pendingWrites s) > 0
      then s\<lparr>pendingWrites := [], pendingBytes := 0,
              datWritten := datWritten s @ concat (pendingWrites s)\<rparr>
      else s)"

text \<open>The loop \<^verbatim>\<open>for (let b = 0; b < blocksNeeded; b += 1)\<close> that pushes the FAT entries
  of one file, on the pair \<open>(currentBlock, fatEntries)\<close>.\<close>

definition push_fat :: "nat \<Rightarrow> nat \<times> nat list \<Rightarrow> nat \<times> nat list" where
  "push_fat blocksNeeded =
     fold (\<lambda>b (cur, fatE). (cur + 1, fatE @ [if b < blocksNeeded - 1 then cur + 1 else 0xffffffff]))
          [0..<blocksNeeded]"

text \<open>\<^verbatim>\<open>scheduledToOriginal ? scheduledToOriginal[result.index] : result.index\<close>\<close>

definition original_index :: "nat list option \<Rightarrow> nat \<Rightarrow> nat option" where
  "original_index scheduledToOriginal i =
     (case scheduledToOriginal of
        None \<Rightarrow> Some i
      | Some perm \<Rightarrow> if i < length perm then Some (perm ! i) else None)"

text \<open>The body of \<^verbatim>\<open>for await (const result of compressFilesStream(...))\<close>.\<close>

definition repack_result :: "nat list option \<Rightarrow> repack_state \<Rightarrow> CompressedFile \<Rightarrow> repack_state" where
  "repack_result scheduledToOriginal s result =
     (let originalIndex = original_index scheduledToOriginal (cf_index result);
          s1 = s\<lparr>totalRawSize := totalRawSize s + cf_rawSize result,
                  wrappedSizes := array_set (wrappedSizes s) originalIndex (length (cf_wrapped result))\<rparr>;
          blocksNeeded = (length (cf_wrapped result) + DAT_BLOCK_SIZE - 1) div DAT_BLOCK_SIZE;
          s2 = s1\<lparr>startBlocks := array_set (startBlocks s1) originalIndex (currentBlock s1)\<rparr>;
          s3 = enqueueWrite (cf_wrapped result) s2;
          padSize = blocksNeeded * DAT_BLOCK_SIZE - length (cf_wrapped result);
          s4 = (if padSize > 0 then enqueueWrite (replicate padSize 0) s3 else s3);
          (cur, fatE) = push_fat blocksNeeded (currentBlock s4, fatEntries s4)
      in s4\<lparr>currentBlock := cur, fatEntries := fatE, processed := processed s4 + 1\<rparr>)"

text \<open>Phase 3 from the opening of the data file on: the reserved block 0 is written first,
  then the results are consumed in the order in which the stream yields them, then the
  pending writes are flushed. \<open>n\<close> is the number of valid paths.\<close>

definition repack_init :: "nat \<Rightarrow> repack_state" where
  "repack_init n =
     \<lparr>totalRawSize = 0, currentBlock = 1, fatEntries = [0],
      startBlocks = replicate n None, wrappedSizes = replicate n None,
      pendingWrites = [], pendingBytes = 0,
      datWritten = replicate DAT_BLOCK_SIZE 0, processed = 0\<rparr>"

definition repack_phase3 :: "nat \<Rightarrow> nat list option \<Rightarrow> CompressedFile list \<Rightarrow> repack_state" where
  "repack_phase3 n scheduledToOriginal results =
     flushWrites (fold (\<lambda>result s. repack_result scheduledToOriginal s result) results (repack_init n))"

text \<open>\<^verbatim>\<open>packMetaRecord\<close>; \<^verbatim>\<open>undefined >>> 0\<close> is 0.\<close>

definition packMetaRecord :: "nat \<Rightarrow> nat \<Rightarrow> nat \<Rightarrow> nat \<Rightarrow> byte list" where
  "packMetaRecord f s b x = packU32 f @ packU32 s @ packU32 b @ packU32 x"

definition to_uint32 :: "nat option \<Rightarrow> nat" where
  "to_uint32 v = (case v of None \<Rightarrow> 0 | Some k \<Rightarrow> k)"

text \<open>Phase 4: the meta buffer, one record per valid path, and the FAT buffer.\<close>

definition repack_metaData :: "nat \<Rightarrow> repack_state \<Rightarrow> byte list" where
  "repack_metaData n s =
     concat (map (\<lambda>i. packMetaRecord 1 (to_uint32 (array_get (wrappedSizes s) i))
                                        (to_uint32 (array_get (startBlocks s) i)) 0) [0..<n])"

definition repack_fatData :: "repack_state \<Rightarrow> byte list" where
  "repack_fatData s = concat (map packU32 (fatEntries s))"

text \<open>The size-schedule: the indices sorted by descending file size, ties by original
  index (a stable sort of \<open>[0..<n]\<close> on the negated size).\<close>

definition size_schedule :: "nat list \<Rightarrow> nat list" where
  "size_schedule sizes = sort_key (\<lambda>i. - int (sizes ! i)) [0..<length sizes]"

text \<open>Two results, of 600 and 40 wrapped bytes, that arrive in the order 1, 0.\<close>

definition two_results :: "CompressedFile list" where
  "two_results =
     [\<lparr>cf_index = 1, cf_wrapped = replicate 600 7, cf_rawSize = 900, cf_rawSha1 = []\<rparr>,
      \<lparr>cf_index = 0, cf_wrapped = replicate 40 9, cf_rawSize = 8, cf_rawSha1 = []\<rparr>]"

text \<open>The chain of a file of \<open>sz\<close> wrapped bytes that starts at block \<open>st\<close>, in the
  FAT as a sequence of numbers: \<open>\<lceil>sz / 512\<rceil>\<close> consecutive blocks from block 1 on, each
  entry pointing to the next block and the last one holding \<open>0xFFFFFFFF\<close>.\<close>

definition file_chain :: "nat list \<Rightarrow> nat \<Rightarrow> nat \<Rightarrow> bool" where
  "file_chain fatE st sz \<longleftrightarrow>
     1 \<le> st \<and> st + (sz + 511) div 512 \<le> length fatE \<and>
     (\<forall>j < (sz + 511) div 512.
        fatE ! (st + j) = (if j < (sz + 511) div 512 - 1 then st + j + 1 else 0xffffffff))"

text \<open>What the loop has established once the results \<open>rs\<close> are consumed.\<close>

definition repack_inv :: "nat \<Rightarrow> nat list option \<Rightarrow> CompressedFile list \<Rightarrow> repack_state \<Rightarrow> bool" where
  "repack_inv n sched rs s \<longleftrightarrow>
     currentBlock s = length (fatEntries s) \<and> fatEntries s \<noteq> [] \<and> fatEntries s ! 0 = 0 \<and>
     length (startBlocks s) = n \<and> length (wrappedSizes s) = n \<and>
     (\<forall>r \<in> set rs. \<exists>i st. original_index sched (cf_index r) = Some i \<and> i < n \<and>
         wrappedSizes s ! i = Some (length (cf_wrapped r)) \<and>
         startBlocks s ! i = Some st \<and>
         file_chain (fatEntries s) st (length (cf_wrapped r)))"

text \<open>The permutation captured at dispatch time, when the size-schedule is on.\<close>

definition valid_schedule :: "nat \<Rightarrow> nat list option \<Rightarrow> bool" where
  "valid_schedule n sched =
     (case sched of None \<Rightarrow> True | Some p \<Rightarrow> length p = n \<and> distinct p \<and> set p = {..<n})"

section \<open>Little-endian fields: reading back what was written\<close>

lemma length_packU32: "length (packU32 v) = 4"
  by (simp add: packU32_def)

lemma length_packU64: "length (packU64 v) = 8"
  by (simp add: packU64_def length_packU32)

lemma le_nat_packU32: "le_nat (packU32 v) = v mod 4294967296"
proof -
  have a: "v div 65536 = v div 256 div 256" by (simp add: div_mult2_eq)
  have b: "v div 16777216 = v div 256 div 256 div 256" by (simp add: div_mult2_eq)
  have "v mod 4294967296 = v mod (256 * (256 * (256 * 256)))" by simp
  also have "\<dots> = v mod 256 + 256 * ((v div 256) mod 256 + 256 * ((v div 256 div 256) mod 256
                       + 256 * ((v div 256 div 256 div 256) mod 256)))"
    unfolding mod_mult2_eq by simp
  finally show ?thesis
    by (simp add: packU32_def unat_of_nat a b)
qed

lemma readU32_packU32_append: "readU32 (packU32 v @ rest) 0 = Inr (v mod 4294967296)"
  by (simp add: readU32_def length_packU32 le_nat_packU32)

lemma readU32_packU32_append4:
  "length pre = 4 \<Longrightarrow> readU32 (pre @ packU32 v @ rest) 4 = Inr (v mod 4294967296)"
  by (simp add: readU32_def length_packU32 le_nat_packU32)

section \<open>Rounding up to whole 512-byte blocks\<close>

lemma ceil_one: "(r + 511) div 512 = Suc 0 \<Longrightarrow> r \<le> (512::nat)"
proof -
  assume "(r + 511) div 512 = Suc 0"
  then have "(r + 511) div 512 < 2" by simp
  then have "r + 511 < 2 * 512" by (simp only: div_less_iff_less_mult zero_less_numeral)
  then show ?thesis by simp
qed
lemma ceil_more: "(r + 511) div 512 = Suc (Suc n) \<Longrightarrow> (512::nat) < r"
proof -
  assume "(r + 511) div 512 = Suc (Suc n)"
  then have "2 \<le> (r + 511) div 512" by simp
  then have "2 * 512 \<le> r + 511" by (simp only: less_eq_div_iff_mult_less_eq zero_less_numeral)
  then show ?thesis by simp
qed
lemma ceil_step: "(512::nat) < r \<Longrightarrow> (r - 512 + 511) div 512 = (r + 511) div 512 - 1"
proof -
  assume "512 < r"
  then have "r + 511 = (r - 512 + 511) + 512" by simp
  then have "(r + 511) div 512 = (r - 512 + 511) div 512 + 1"
    by (simp only: div_add_self2)
  then show ?thesis by simp
qed
lemma ceil_bound: "(r::nat) \<le> 512 * ((r + 511) div 512)"
proof -
  have "512 * ((r + 511) div 512) + (r + 511) mod 512 = r + 511"
    by (rule mult_div_mod_eq)
  moreover have "(r + 511) mod 512 < 512" by (rule mod_less_divisor) simp
  ultimately show ?thesis by linarith
qed

section \<open>Block codec: round trip and the untyped branch\<close>

lemma buildFileWrapper_length:
  "length (buildFileWrapper deflate raw level) = 32 + length (deflate raw level)"
  by (simp add: buildFileWrapper_def length_packU32 length_packU64)

lemma buildFileWrapper_payload:
  "drop 32 (buildFileWrapper deflate raw level) = deflate raw level"
  by (simp add: buildFileWrapper_def length_packU32 length_packU64)

text \<open>
  Claim C2. For every byte buffer \<open>raw\<close> (its length fits the 32-bit size field) and every
  compression level 1..9, decoding the buffer the encoder produced returns \<open>raw\<close>. The
  encoder emits a 32-byte header with type 1, the length of \<open>raw\<close> as declared size and
  the sentinel timestamp three times, followed by \<open>deflate raw level\<close>; zlib's contract
  (inflate undoes deflate at the levels 1..9) is the hypothesis on the two parameters.
\<close>

theorem wrapper_roundtrip:
  assumes zlib: "\<forall>r l. 1 \<le> l \<and> l \<le> 9 \<longrightarrow> inflate (deflate r l) = Some r"
    and level: "1 \<le> level" "level \<le> 9"
    and size: "length raw < 2 ^ 32"
  shows "decodeFilePayload inflate (buildFileWrapper deflate raw level) = Inr raw
       \<and> length (buildFileWrapper deflate raw level) = 32 + length (deflate raw level)
       \<and> readU32 (buildFileWrapper deflate raw level) 0 = Inr 1
       \<and> readU32 (buildFileWrapper deflate raw level) 4 = Inr (length raw)
       \<and> take 24 (drop 8 (buildFileWrapper deflate raw level)) =
             packU64 FILETIME @ packU64 FILETIME @ packU64 FILETIME
       \<and> drop 32 (buildFileWrapper deflate raw level) = deflate raw level"
proof -
  let ?w = "buildFileWrapper deflate raw level"
  have inf: "inflate (deflate raw level) = Some raw" using zlib level by blast
  have w: "?w = packU32 1 @ packU32 (length raw) @
                (packU64 FILETIME @ packU64 FILETIME @ packU64 FILETIME @ deflate raw level)"
    by (simp add: buildFileWrapper_def)
  have t: "readU32 ?w 0 = Inr 1"
    unfolding w by (simp add: readU32_packU32_append)
  have d: "readU32 ?w 4 = Inr (length raw)"
    unfolding w using size by (simp add: readU32_packU32_append4 length_packU32)
  have len: "length ?w = 32 + length (deflate raw level)"
    by (rule buildFileWrapper_length)
  have p: "drop 32 ?w = deflate raw level"
    by (rule buildFileWrapper_payload)
  have ts: "take 24 (drop 8 ?w) = packU64 FILETIME @ packU64 FILETIME @ packU64 FILETIME"
    unfolding w by (simp add: length_packU32 length_packU64)
  have "decodeFilePayload inflate ?w = Inr raw"
    unfolding decodeFilePayload_def FILE_WRAPPER_HEADER_SIZE_def
    by (simp add: t d p len bindE_def inf del: drop_append)
  then show ?thesis using t d len p ts by blast
qed

theorem wrapper_roundtrip_witness:
  "decodeFilePayload stored_inflate (buildFileWrapper stored_deflate [0x41, 0x42, 0x43] 6)
         = Inr [0x41, 0x42, 0x43]
       \<and> length (buildFileWrapper stored_deflate [0x41, 0x42, 0x43] 6)
         = 32 + length (stored_deflate [0x41, 0x42, 0x43] 6)
       \<and> readU32 (buildFileWrapper stored_deflate [0x41, 0x42, 0x43] 6) 0 = Inr 1
       \<and> readU32 (buildFileWrapper stored_deflate [0x41, 0x42, 0x43] 6) 4
         = Inr (length [0x41 :: byte, 0x42, 0x43])
       \<and> take 24 (drop 8 (buildFileWrapper stored_deflate [0x41, 0x42, 0x43] 6)) =
             packU64 FILETIME @ packU64 FILETIME @ packU64 FILETIME
       \<and> drop 32 (buildFileWrapper stored_deflate [0x41, 0x42, 0x43] 6)
         = stored_deflate [0x41, 0x42, 0x43] 6"
  by (rule wrapper_roundtrip) (simp_all add: stored_inflate_def stored_deflate_def)

text \<open>
  Claim C6, as the code has it. For a wrapped buffer of at least 32 bytes whose header
  declares a type other than 1, the decoder returns the post-header bytes unchanged when
  the declared size is 0 or equals their length, and fails in the remaining case only: a
  declared size that is non-zero and differs from the post-header length.
\<close>

theorem decode_untyped:
  assumes "32 \<le> length raw" and "readU32 raw 0 = Inr typ" and "typ \<noteq> 1"
    and "readU32 raw 4 = Inr declaredSize"
  shows "decodeFilePayload inflate raw =
           (if declaredSize = 0 \<or> length (drop 32 raw) = declaredSize then Inr (drop 32 raw)
            else Inl (UnsupportedWrapper typ (length (drop 32 raw)) declaredSize))"
  using assms by (simp add: decodeFilePayload_def FILE_WRAPPER_HEADER_SIZE_def bindE_def)

theorem decode_untyped_witness:
  "decodeFilePayload stored_inflate untyped_buf =
     (if (0::nat) = 0 \<or> length (drop 32 untyped_buf) = 0 then Inr (drop 32 untyped_buf)
      else Inl (UnsupportedWrapper 0 (length (drop 32 untyped_buf)) 0))"
  by (rule decode_untyped) (simp_all add: untyped_buf_def readU32_def packU32_def)

text \<open>
  The claim as stated fails: the buffer \<open>untyped_buf\<close> declares type 0 and size 0, its
  post-header part has length 1, and the decoder returns that byte instead of failing.
\<close>

theorem decode_untyped_counterexample:
  "readU32 untyped_buf 0 = Inr 0 \<and> readU32 untyped_buf 4 = Inr 0
   \<and> length (drop 32 untyped_buf) = 1
   \<and> decodeFilePayload stored_inflate untyped_buf = Inr [0x41]"
  by (simp add: untyped_buf_def decodeFilePayload_def FILE_WRAPPER_HEADER_SIZE_def packU32_def
      readU32_def bindE_def stored_inflate_def)

section \<open>Page-size inference\<close>

lemma page_size_viable_iff:
  "page_size_viable fileSize chs S p \<longleftrightarrow>
     (p dvd fileSize \<and> 2 \<le> fileSize div p \<and> (fileSize div p - 1) mod S = 0
      \<and> (\<forall>c \<in> set chs. sizeBytes c \<le> ((fileSize div p - 1) div S) * pagesPerStripe c * p))"
  by (auto simp: page_size_viable_def channels_fit_def Let_def list_all_iff not_less dvd_eq_mod_eq_0)

text \<open>
  Claim C7. Inferring the page size of an index file of length \<open>fileSize\<close> with channel
  table \<open>chs\<close>: the survivors are the candidates that divide the file length, leave at
  least two pages, satisfy \<open>(total_pages - 1) mod S = 0\<close> for the sum \<open>S\<close> of the
  pages per stripe, and give every channel a capacity of at least its size. The result is
  4096 when 4096 survives, otherwise the smallest survivor; with no survivor the function
  fails (the code raises one of two messages: the stripe shape sums to 0, or no page size
  could be inferred).
\<close>

theorem inferPageSize_spec:
  fixes fileSize :: nat and chs :: "IdxChannel list"
  defines "S \<equiv> sum_list (map pagesPerStripe chs)"
  defines "survivors \<equiv> {p \<in> set candidates.
      p dvd fileSize \<and> 2 \<le> fileSize div p \<and> (fileSize div p - 1) mod S = 0
      \<and> (\<forall>c \<in> set chs. sizeBytes c \<le> ((fileSize div p - 1) div S) * pagesPerStripe c * p)}"
  shows "(4096 \<in> survivors \<longrightarrow> inferPageSize fileSize chs = Inr 4096)
       \<and> (survivors \<noteq> {} \<and> 4096 \<notin> survivors \<longrightarrow> inferPageSize fileSize chs = Inr (Min survivors))
       \<and> (survivors = {} \<longrightarrow> inferPageSize fileSize chs =
            Inl (if S = 0 then InvalidPagesPerStripe else CouldNotInferPageSize))"
proof -
  have surv: "set (filter (page_size_viable fileSize chs S) candidates) = survivors"
    unfolding survivors_def by (auto simp: page_size_viable_iff)
  have zero: "S = 0 \<Longrightarrow> survivors = {}"
    unfolding survivors_def by auto
  show ?thesis
  proof (cases "S = 0")
    case True
    with zero show ?thesis by (simp add: inferPageSize_def S_def)
  next
    case False
    then show ?thesis
      using surv by (auto simp: inferPageSize_def S_def Let_def simp flip: set_empty)
  qed
qed

theorem inferPageSize_spec_witness:
  "inferPageSize 73728 default_channels = Inr 4096
   \<and> inferPageSize 9216 default_channels = Inr 512
   \<and> inferPageSize 1000 default_channels = Inl CouldNotInferPageSize"
proof -
  have a: "inferPageSize 73728 default_channels = Inr 4096"
    using inferPageSize_spec [of 73728 default_channels, THEN conjunct1]
    by (simp add: default_channels_def candidates_def)
  have s: "{p \<in> set candidates. p dvd 9216 \<and> 2 \<le> 9216 div p
              \<and> (9216 div p - 1) mod sum_list (map pagesPerStripe default_channels) = 0
              \<and> (\<forall>c \<in> set default_channels. sizeBytes c \<le>
                   ((9216 div p - 1) div sum_list (map pagesPerStripe default_channels))
                     * pagesPerStripe c * p)} = {512}"
    by (auto simp: candidates_def default_channels_def)
  have b: "inferPageSize 9216 default_channels = Inr 512"
    using inferPageSize_spec [of 9216 default_channels, unfolded s] by simp
  have e: "{p \<in> set candidates. p dvd 1000 \<and> 2 \<le> 1000 div p
              \<and> (1000 div p - 1) mod sum_list (map pagesPerStripe default_channels) = 0
              \<and> (\<forall>c \<in> set default_channels. sizeBytes c \<le>
                   ((1000 div p - 1) div sum_list (map pagesPerStripe default_channels))
                     * pagesPerStripe c * p)} = {}"
    by (auto simp: candidates_def default_channels_def)
  have c: "inferPageSize 1000 default_channels = Inl CouldNotInferPageSize"
    using inferPageSize_spec [of 1000 default_channels, unfolded e]
    by (simp add: default_channels_def)
  from a b c show ?thesis by blast
qed

section \<open>The payload reader and the FAT\<close>

lemma fatNext_Inl: "fatNext fatBuf b = Inl e \<Longrightarrow> e = FatBlockOutOfRange b"
  by (auto simp: fatNext_def readU32_def Let_def split: if_splits)

lemma read_loop_prefix:
  "read_loop fatBuf d sz k (b, remaining, out, cons) = (r, consulted) \<Longrightarrow> \<exists>ext. consulted = cons @ ext"
proof (induction k arbitrary: b remaining out cons)
  case 0
  then show ?case by simp
next
  case (Suc k)
  show ?case
  proof (cases "read_iteration fatBuf d sz (b, remaining, out, cons)")
    case (Done res)
    with Suc.prems have "res = (r, consulted)" by simp
    with Done show ?thesis
      by (auto simp: read_iteration_def Let_def split: if_splits sum.splits)
  next
    case (Continue st')
    obtain b' rem' out' cons' where st': "st' = (b', rem', out', cons')"
      by (cases st') auto
    from Continue st' have c: "cons' = cons @ [b]"
      by (auto simp: read_iteration_def Let_def split: if_splits sum.splits)
    from Suc.prems Continue st' have "read_loop fatBuf d sz k (b', rem', out', cons') = (r, consulted)"
      by simp
    from Suc.IH [OF this] c show ?thesis by auto
  qed
qed

lemma read_loop_consulted:
  "read_loop fatBuf d sz k (b, remaining, out, cons) = (r, cons @ ext) \<Longrightarrow>
   0 < remaining \<Longrightarrow> remaining \<le> 512 * k \<Longrightarrow>
     length ext \<le> k - 1
   \<and> (\<forall>i<length ext. chain_block fatBuf b i = Some (ext ! i))
   \<and> (\<forall>x. r = Inl (UnexpectedEndOfFat x) \<longrightarrow>
          ext \<noteq> [] \<and> x = last ext \<and> fatNext fatBuf x = Inr 0xffffffff)"
proof (induction k arbitrary: b remaining out cons ext)
  case 0
  then show ?case by simp
next
  case (Suc k)
  show ?case
  proof (cases "read_iteration fatBuf d sz (b, remaining, out, cons)")
    case (Done res)
    with Suc.prems(1) have res: "res = (r, cons @ ext)" by simp
    from Done res Suc.prems(2,3) show ?thesis
      by (auto simp: read_iteration_def Let_def finish_read_def
               dest: fatNext_Inl split: if_splits sum.splits)
  next
    case (Continue st')
    obtain b' rem' out' cons' where st': "st' = (b', rem', out', cons')"
      by (cases st') auto
    from Continue st' Suc.prems(2,3)
    have c: "cons' = cons @ [b]" and nx: "fatNext fatBuf b = Inr b'" and b': "b' \<noteq> 0xffffffff"
      and rem': "0 < rem'" "rem' \<le> 512 * k"
      by (auto simp: read_iteration_def Let_def split: if_splits sum.splits)
    from Suc.prems(1) Continue st'
    have run: "read_loop fatBuf d sz k (b', rem', out', cons') = (r, cons @ ext)"
      by simp
    from read_loop_prefix [OF run] c obtain ext' where ext: "ext = b # ext'"
      by auto
    from run c ext have run': "read_loop fatBuf d sz k (b', rem', out', cons') = (r, cons' @ ext')"
      by simp
    note ih = Suc.IH [OF run' rem']
    from rem' have k: "1 \<le> k" by (cases k) auto
    from ih have "length ext' \<le> k - 1" by blast
    with k ext have l: "length ext \<le> Suc k - 1" by (simp add: le_diff_conv2)
    have ch: "\<forall>i<length ext. chain_block fatBuf b i = Some (ext ! i)"
    proof (intro allI impI)
      fix i assume "i < length ext"
      then show "chain_block fatBuf b i = Some (ext ! i)"
        using ih ext nx by (cases i) auto
    qed
    have eoc: "\<forall>x. r = Inl (UnexpectedEndOfFat x) \<longrightarrow>
          ext \<noteq> [] \<and> x = last ext \<and> fatNext fatBuf x = Inr 0xffffffff"
      using ih ext by auto
    from l ch eoc show ?thesis by blast
  qed
qed

lemma read_loop_frame:
  "read_loop fatBuf d sz k (b, remaining, out, cons) = (r, cons @ ext) \<Longrightarrow>
   \<forall>x\<in>set ext. fatNext fatBuf' x = fatNext fatBuf x \<Longrightarrow>
   read_loop fatBuf' d sz k (b, remaining, out, cons) = (r, cons @ ext)"
proof (induction k arbitrary: b remaining out cons ext)
  case 0
  then show ?case by simp
next
  case (Suc k)
  show ?case
  proof (cases "read_iteration fatBuf d sz (b, remaining, out, cons)")
    case (Done res)
    with Suc.prems(1) have res: "res = (r, cons @ ext)" by simp
    from Done res Suc.prems(2)
    have "read_iteration fatBuf' d sz (b, remaining, out, cons) = Done (r, cons @ ext)"
      by (auto simp: read_iteration_def Let_def split: if_splits sum.splits)
    then show ?thesis by simp
  next
    case (Continue st')
    obtain b' rem' out' cons' where st': "st' = (b', rem', out', cons')"
      by (cases st') auto
    from Continue st' have c: "cons' = cons @ [b]"
      by (auto simp: read_iteration_def Let_def split: if_splits sum.splits)
    from Suc.prems(1) Continue st'
    have run: "read_loop fatBuf d sz k (b', rem', out', cons') = (r, cons @ ext)"
      by simp
    from read_loop_prefix [OF run] c obtain ext' where ext: "ext = b # ext'"
      by auto
    from run c ext have run': "read_loop fatBuf d sz k (b', rem', out', cons') = (r, cons' @ ext')"
      by simp
    from Suc.prems(2) ext have same: "fatNext fatBuf' b = fatNext fatBuf b"
      and rest: "\<forall>x\<in>set ext'. fatNext fatBuf' x = fatNext fatBuf x" by auto
    from Continue st' same
    have "read_iteration fatBuf' d sz (b, remaining, out, cons) = Continue (b', rem', out', cons')"
      by (auto simp: read_iteration_def Let_def split: if_splits sum.splits)
    moreover from Suc.IH [OF run' rest] c ext
    have "read_loop fatBuf' d sz k (b', rem', out', cons') = (r, cons @ ext)" by simp
    ultimately show ?thesis by simp
  qed
qed


lemma read_loop_chain:
  "bs \<noteq> [] \<Longrightarrow> length bs = (remaining + 511) div 512 \<Longrightarrow> length bs \<le> k \<Longrightarrow>
   0 < remaining \<Longrightarrow> hd bs = b \<Longrightarrow> is_chain fatBuf bs \<Longrightarrow> blocks_readable d bs remaining \<Longrightarrow>
   fst (read_loop fatBuf d sz k (b, remaining, out, cons)) = Inr (out @ blocks_data d bs remaining)"
proof (induction bs arbitrary: k b remaining out cons)
  case Nil
  then show ?case by simp
next
  case (Cons blk rest)
  from Cons.prems(3) obtain k' where k: "k = Suc k'" by (cases k) auto
  from Cons.prems(5) have blk: "blk = b" by simp
  from Cons.prems(7) blk have rd: "b * 512 + min 512 remaining \<le> length d"
    and rd': "blocks_readable d rest (remaining - 512)" by simp_all
  show ?case
  proof (cases rest)
    case Nil
    then have "length (blk # rest) = Suc 0" by simp
    from trans [OF Cons.prems(2) [symmetric] this]
    have le: "remaining \<le> 512" by (rule ceil_one)
    then have m: "min 512 remaining = remaining" by simp
    with rd have g: "length (take remaining (drop (b * 512) d)) = remaining" by simp
    have "read_iteration fatBuf d sz (b, remaining, out, cons)
            = Done (Inr (out @ take remaining (drop (b * 512) d)), cons)"
      using le g Cons.prems(4) by (simp add: read_iteration_def Let_def finish_read_def)
    with Nil blk k m show ?thesis by simp
  next
    case (Cons nxt rest')
    then have "length (blk # rest) = Suc (Suc (length rest'))" by simp
    from trans [OF Cons.prems(2) [symmetric] this]
    have r: "512 < remaining" by (rule ceil_more)
    from Cons Cons.prems(6) blk
    have nx: "fatNext fatBuf b = Inr nxt" "nxt \<noteq> 4294967295" and ch: "is_chain fatBuf rest"
      by auto
    from r rd have got: "length (take 512 (drop (b * 512) d)) = 512" by simp
    from r got nx
    have it: "read_iteration fatBuf d sz (b, remaining, out, cons)
              = Continue (nxt, remaining - 512, out @ take 512 (drop (b * 512) d), cons @ [b])"
      by (simp add: read_iteration_def Let_def)
    have "length rest = length (blk # rest) - 1" by simp
    also have "\<dots> = (remaining + 511) div 512 - 1" by (simp only: Cons.prems(2))
    also have "\<dots> = (remaining - 512 + 511) div 512" by (rule ceil_step [OF r, symmetric])
    finally have len: "length rest = (remaining - 512 + 511) div 512" .
    have ne: "rest \<noteq> []" and hd: "hd rest = nxt" using Cons by simp_all
    have k': "length rest \<le> k'" using Cons.prems(3) k by simp
    have pos: "0 < remaining - 512" using r by simp
    have "fst (read_loop fatBuf d sz k' (nxt, remaining - 512, out @ take 512 (drop (b * 512) d), cons @ [b]))
          = Inr ((out @ take 512 (drop (b * 512) d)) @ blocks_data d rest (remaining - 512))"
      by (rule Cons.IH [OF ne len k' pos hd ch rd'])
    moreover from r have "min 512 remaining = 512" by simp
    ultimately show ?thesis using it k blk by simp
  qed
qed

text \<open>
  Claim C10. For a meta record with \<open>size > 0\<close> and \<open>n = \<lceil>size / 512\<rceil>\<close> blocks, the
  payload reader calls \<open>fatNext\<close> at most \<open>n - 1\<close> times, and its \<open>i\<close>-th call is at
  the \<open>i\<close>-th block of the chain: the FAT is consulted only to advance between blocks.
  The end-of-chain error is raised only at one of the first \<open>n - 1\<close> blocks of the chain,
  whose FAT entry is \<open>0xFFFFFFFF\<close>. The result depends on the FAT only through the
  entries at the consulted blocks, and every chain of \<open>n\<close> readable blocks is read
  successfully whatever the FAT entry of its last block is.
\<close>

theorem readRawMetaBytes_fat_use:
  assumes size: "0 < msize m" and start: "startBlock m \<noteq> 0xffffffff"
    and run: "readRawMetaBytes_log fatBuf (Some d) m = (r, consulted)"
  shows "length consulted \<le> (msize m + 511) div 512 - 1
       \<and> (\<forall>i<length consulted. chain_block fatBuf (startBlock m) i = Some (consulted ! i))
       \<and> (\<forall>x. r = Inl (UnexpectedEndOfFat x) \<longrightarrow>
              (\<exists>i. i < (msize m + 511) div 512 - 1 \<and> chain_block fatBuf (startBlock m) i = Some x)
              \<and> fatNext fatBuf x = Inr 0xffffffff)
       \<and> (\<forall>fatBuf'. (\<forall>x\<in>set consulted. fatNext fatBuf' x = fatNext fatBuf x) \<longrightarrow>
              readRawMetaBytes_log fatBuf' (Some d) m = (r, consulted))
       \<and> (\<forall>bs. length bs = (msize m + 511) div 512 \<and> hd bs = startBlock m
                \<and> is_chain fatBuf bs \<and> blocks_readable d bs (msize m) \<longrightarrow>
              r = Inr (blocks_data d bs (msize m)))"
proof -
  let ?n = "(msize m + 511) div 512"
  from size start run
  have loop: "read_loop fatBuf d (msize m) ?n (startBlock m, msize m, [], []) = (r, [] @ consulted)"
    by (simp add: readRawMetaBytes_log_def)
  have le: "msize m \<le> 512 * ?n" by (rule ceil_bound)
  note c = read_loop_consulted [OF loop size le]
  have a: "length consulted \<le> ?n - 1" using c by blast
  have b: "\<forall>i<length consulted. chain_block fatBuf (startBlock m) i = Some (consulted ! i)"
    using c by blast
  have e: "\<forall>x. r = Inl (UnexpectedEndOfFat x) \<longrightarrow>
              (\<exists>i. i < ?n - 1 \<and> chain_block fatBuf (startBlock m) i = Some x)
              \<and> fatNext fatBuf x = Inr 0xffffffff"
  proof (intro allI impI)
    fix x assume "r = Inl (UnexpectedEndOfFat x)"
    with c have ne: "consulted \<noteq> []" and x: "x = last consulted"
      and f: "fatNext fatBuf x = Inr 0xffffffff" by auto
    let ?i = "length consulted - 1"
    from ne have i: "?i < length consulted" by simp
    with b have "chain_block fatBuf (startBlock m) ?i = Some (consulted ! ?i)" by blast
    moreover from ne x have "consulted ! ?i = x" by (simp add: last_conv_nth)
    moreover from i a have "?i < ?n - 1" by simp
    ultimately show "(\<exists>i. i < ?n - 1 \<and> chain_block fatBuf (startBlock m) i = Some x)
              \<and> fatNext fatBuf x = Inr 0xffffffff" using f by blast
  qed
  have f: "\<forall>fatBuf'. (\<forall>x\<in>set consulted. fatNext fatBuf' x = fatNext fatBuf x) \<longrightarrow>
              readRawMetaBytes_log fatBuf' (Some d) m = (r, consulted)"
  proof (intro allI impI)
    fix fatBuf' assume "\<forall>x\<in>set consulted. fatNext fatBuf' x = fatNext fatBuf x"
    from read_loop_frame [OF loop this] size start
    show "readRawMetaBytes_log fatBuf' (Some d) m = (r, consulted)"
      by (simp add: readRawMetaBytes_log_def)
  qed
  have g: "\<forall>bs. length bs = ?n \<and> hd bs = startBlock m
                \<and> is_chain fatBuf bs \<and> blocks_readable d bs (msize m) \<longrightarrow>
              r = Inr (blocks_data d bs (msize m))"
  proof (intro allI impI)
    fix bs assume bs: "length bs = ?n \<and> hd bs = startBlock m
                \<and> is_chain fatBuf bs \<and> blocks_readable d bs (msize m)"
    with size have ne: "bs \<noteq> []" by auto
    from bs have l: "length bs = ?n" "length bs \<le> ?n" by auto
    from read_loop_chain [OF ne l size, of "startBlock m" fatBuf d "msize m" "[]" "[]"] bs loop
    show "r = Inr (blocks_data d bs (msize m))" by simp
  qed
  from a b e f g show ?thesis by blast
qed

theorem readRawMetaBytes_fat_use_witness:
  "fst (readRawMetaBytes_log open_chain_fat (Some open_chain_dat) open_chain_meta)
     = Inr (replicate 512 1 @ replicate 88 2)
   \<and> length (snd (readRawMetaBytes_log open_chain_fat (Some open_chain_dat) open_chain_meta)) \<le> 1
   \<and> fatNext open_chain_fat 2 = Inr 0"
proof -
  obtain r consulted
    where run: "readRawMetaBytes_log open_chain_fat (Some open_chain_dat) open_chain_meta = (r, consulted)"
    by (cases "readRawMetaBytes_log open_chain_fat (Some open_chain_dat) open_chain_meta") auto
  have size: "0 < msize open_chain_meta" and start: "startBlock open_chain_meta \<noteq> 0xffffffff"
    by (simp_all add: open_chain_meta_def)
  note t = readRawMetaBytes_fat_use [OF size start run]
  have f1: "fatNext open_chain_fat (Suc 0) = Inr 2" and f2: "fatNext open_chain_fat 2 = Inr 0"
    by (simp_all add: open_chain_fat_def fatNext_def readU32_def packU32_def)
  have n: "(msize open_chain_meta + 511) div 512 = 2"
    by (simp add: open_chain_meta_def)
  have "length [1, 2 :: nat] = (msize open_chain_meta + 511) div 512 \<and> hd [1, 2] = startBlock open_chain_meta
        \<and> is_chain open_chain_fat [1, 2] \<and> blocks_readable open_chain_dat [1, 2] (msize open_chain_meta)"
    unfolding n by (simp add: open_chain_meta_def f1 open_chain_dat_def)
  with t have "r = Inr (blocks_data open_chain_dat [1, 2] (msize open_chain_meta))" by blast
  then have r: "r = Inr (replicate 512 1 @ replicate 88 2)"
    by (simp add: open_chain_dat_def open_chain_meta_def)
  from t have "length consulted \<le> (msize open_chain_meta + 511) div 512 - 1" by blast
  then have "length consulted \<le> 1" unfolding n by simp
  with r f2 run show ?thesis by simp
qed

section \<open>String table: what the builder writes, the reader decodes\<close>

lemma or_in_use_low: "n < 2147483648 \<Longrightarrow> or_in_use n mod 2147483648 = n"
proof -
  assume n: "n < 2147483648"
  have a: "\<And>x::32 word. unat x mod 2147483648 = unat (take_bit 31 x)"
    by (simp add: unsigned_take_bit_eq take_bit_nat_def)
  have tb: "take_bit 31 ((word_of_nat n :: 32 word) OR 0x80000000) = take_bit 31 (word_of_nat n :: 32 word)"
    by (rule bit_eqI) (auto simp: bit_simps)
  have "or_in_use n mod 2147483648 = unat (word_of_nat n :: 32 word) mod 2147483648"
    unfolding or_in_use_def by (simp only: a tb)
  also have "\<dots> = n"
    using n by (simp add: unat_of_nat)
  finally show ?thesis .
qed

lemma or_in_use_bound: "or_in_use n < 4294967296"
  using unsigned_less [of "(word_of_nat n :: 32 word) OR 0x80000000", where 'a=nat]
  by (simp add: or_in_use_def)

lemma length_make_record: "length c \<le> 60 \<Longrightarrow> length (make_record nx c) = 64"
  by (simp add: make_record_def length_packU32 STRING_PAYLOAD_SIZE_def)

lemma recs_chain_records:
  "map (\<lambda>i. let isLast = (i = length cs - 1);
                nextIdx = (if isLast then 0 else n + i + 1)
            in make_record nextIdx (cs ! i)) [0..<length cs] = chain_records n cs"
proof (induction n cs rule: chain_records.induct)
  case (1 n)
  show ?case by simp
next
  case (2 n c)
  show ?case by simp
next
  case (3 n c c' cs)
  have "map (\<lambda>i. let isLast = (i = length (c # c' # cs) - 1);
                     nextIdx = (if isLast then 0 else n + i + 1)
                 in make_record nextIdx ((c # c' # cs) ! i)) [0..<length (c # c' # cs)]
        = make_record (n + 1) c #
          map (\<lambda>i. let isLast = (i = length (c' # cs) - 1);
                       nextIdx = (if isLast then 0 else (n + 1) + i + 1)
                   in make_record nextIdx ((c' # cs) ! i)) [0..<length (c' # cs)]"
    by (simp add: map_upt_Suc Let_def del: upt_Suc)
  with 3 show ?case by simp
qed

lemma chunk_loop_unfold:
  "i < length t \<Longrightarrow> chunk_loop t i = take 60 (drop i t) # chunk_loop t (i + 60)"
  by (subst chunk_loop.simps) (simp add: STRING_PAYLOAD_SIZE_def)

lemma chunk_loop_done: "length t \<le> i \<Longrightarrow> chunk_loop t i = []"
  by (subst chunk_loop.simps) simp

lemma concat_chunk_loop: "concat (chunk_loop t i) = drop i t"
proof (induction t i rule: chunk_loop.induct)
  case (1 t i)
  show ?case
  proof (cases "i < length t")
    case True
    have "take 60 (drop i t) @ drop (i + 60) t = drop i t"
      by (metis add.commute append_take_drop_id drop_drop)
    with True 1 show ?thesis
      by (simp add: chunk_loop_unfold STRING_PAYLOAD_SIZE_def)
  next
    case False
    then show ?thesis by (simp add: chunk_loop_done)
  qed
qed

lemma good_chunk_loop:
  "i < length t \<Longrightarrow> 0 \<notin> set t \<Longrightarrow> good_chunks (chunk_loop t i)"
proof (induction t i rule: chunk_loop.induct)
  case (1 t i)
  have nz: "0 \<notin> set (take 60 (drop i t))"
    using "1.prems"(2) by (meson in_set_dropD in_set_takeD)
  have u: "chunk_loop t i = take 60 (drop i t) # chunk_loop t (i + 60)"
    using "1.prems"(1) by (rule chunk_loop_unfold)
  show ?case
  proof (cases "i + 60 < length t")
    case True
    have "good_chunks (chunk_loop t (i + STRING_PAYLOAD_SIZE))"
      using "1.prems" True by (intro "1.IH") (simp_all add: STRING_PAYLOAD_SIZE_def)
    then have ih: "good_chunks (chunk_loop t (i + 60))"
      by (simp only: STRING_PAYLOAD_SIZE_def)
    then obtain c' cs where r: "chunk_loop t (i + 60) = c' # cs"
      by (cases "chunk_loop t (i + 60)") auto
    from True have l: "length (take 60 (drop i t)) = 60" by simp
    from ih have "good_chunks (c' # cs)" by (simp only: r)
    with l nz show ?thesis unfolding u r by simp
  next
    case False
    then have e: "chunk_loop t (i + 60) = []" by (simp add: chunk_loop_done)
    from "1.prems"(1) have "take 60 (drop i t) \<noteq> []" by simp
    with nz show ?thesis unfolding u e by simp
  qed
qed

lemma length_concat_recs:
  "list_all (\<lambda>r. length r = 64) rs \<Longrightarrow> length (concat rs) = length rs * 64"
  by (induction rs) auto

lemma string_iteration_record:
  assumes P: "length P = n * 64" and c: "length c \<le> 60" and n: "n \<notin> set seen"
  shows "string_iteration (P @ make_record nx c @ R) (seen, acc, n) =
           (let chunk = c @ replicate (60 - length c) 0;
                nxt = or_in_use nx mod 2147483648
            in if 0 \<in> set chunk
               then Done (Inr (concat (acc @ [takeWhile (\<lambda>b. b \<noteq> 0) chunk])))
               else if nxt = 0 then Done (Inr (concat (acc @ [chunk])))
               else Continue (n # seen, acc @ [chunk], nxt))"
proof -
  let ?T = "P @ make_record nx c @ R"
  have len: "length (make_record nx c) = 64" using c by (rule length_make_record)
  have d: "drop (n * 64) ?T = make_record nx c @ R" using P by simp
  have rng: "n * 64 + 64 \<le> length ?T" using P len by simp
  have h: "readU32 ?T (n * 64) = Inr (or_in_use nx)"
  proof -
    have "take 4 (drop (n * 64) ?T) = packU32 (or_in_use nx)"
      unfolding d by (simp add: make_record_def length_packU32)
    moreover have "or_in_use nx mod 4294967296 = or_in_use nx"
      using or_in_use_bound [of nx] by simp
    ultimately show ?thesis using rng by (simp add: readU32_def le_nat_packU32)
  qed
  have "drop (n * 64 + 4) ?T = drop 4 (drop (n * 64) ?T)"
    by (subst drop_drop) (simp only: add.commute)
  also have "\<dots> = c @ replicate (60 - length c) 0 @ R"
    unfolding d by (simp add: make_record_def length_packU32 STRING_PAYLOAD_SIZE_def)
  finally have ch: "take 60 (drop (n * 64 + 4) ?T) = c @ replicate (60 - length c) 0"
    using c by simp
  show ?thesis
    unfolding string_iteration_def using n rng h ch
    by (simp add: Let_def)
qed


lemma takeWhile_padded:
  "0 \<notin> set c \<Longrightarrow> 0 < k \<Longrightarrow> takeWhile (\<lambda>b. b \<noteq> 0) (c @ replicate k (0::byte)) = c"
  by (induction c) (auto simp: gr0_conv_Suc)

lemma string_loop_Continue:
  "string_iteration T st = Continue st' \<Longrightarrow> string_loop T st = string_loop T st'"
  by (subst string_loop.simps) simp

lemma string_loop_Done: "string_iteration T st = Done r \<Longrightarrow> string_loop T st = r"
  by (subst string_loop.simps) simp

lemma decode_chain:
  "good_chunks cs \<Longrightarrow> length P = n * 64 \<Longrightarrow> \<forall>s\<in>set seen. s < n \<Longrightarrow>
   n + length cs \<le> 2147483648 \<Longrightarrow>
   string_loop (P @ concat (chain_records n cs) @ R) (seen, acc, n) = Inr (concat acc @ concat cs)"
proof (induction n cs arbitrary: P seen acc rule: chain_records.induct)
  case (1 n)
  then show ?case by simp
next
  case (2 n c)
  from "2.prems"(1) have c: "c \<noteq> []" "length c \<le> 60" "0 \<notin> set c" by simp_all
  from "2.prems"(3) have n: "n \<notin> set seen" by auto
  have z: "or_in_use 0 mod 2147483648 = 0" by (rule or_in_use_low) simp
  have it: "string_iteration (P @ make_record 0 c @ R) (seen, acc, n) = Done (Inr (concat acc @ c))"
  proof (cases "length c = 60")
    case True
    with c z show ?thesis
      by (simp add: string_iteration_record [OF "2.prems"(2) c(2) n])
  next
    case False
    with c have k: "0 < 60 - length c" by simp
    with c z show ?thesis
      by (simp add: string_iteration_record [OF "2.prems"(2) c(2) n] takeWhile_padded)
  qed
  show ?case
    using string_loop_Done [OF it] by simp
next
  case (3 n c c' cs)
  from "3.prems"(1) have c: "length c = 60" "0 \<notin> set c" and g: "good_chunks (c' # cs)"
    by simp_all
  from c have c60: "length c \<le> 60" by simp
  from "3.prems"(3) have n: "n \<notin> set seen" by auto
  from "3.prems"(4) have b: "n + 1 < 2147483648" by simp
  have nx: "or_in_use (n + 1) mod 2147483648 = n + 1" using b by (rule or_in_use_low)
  have it: "string_iteration (P @ make_record (n + 1) c @ (concat (chain_records (n + 1) (c' # cs)) @ R))
              (seen, acc, n) = Continue (n # seen, acc @ [c], n + 1)"
    using c nx by (simp add: string_iteration_record [OF "3.prems"(2) c60 n])
  have P': "length (P @ make_record (n + 1) c) = (n + 1) * 64"
    using "3.prems"(2) length_make_record [OF c60] by simp
  have seen': "\<forall>s\<in>set (n # seen). s < n + 1" using "3.prems"(3) by auto
  have b': "n + 1 + length (c' # cs) \<le> 2147483648" using "3.prems"(4) by simp
  have ih: "string_loop ((P @ make_record (n + 1) c) @ concat (chain_records (n + 1) (c' # cs)) @ R)
          (n # seen, acc @ [c], n + 1) = Inr (concat (acc @ [c]) @ concat (c' # cs))"
    by (rule "3.IH" [OF g P' seen' b'])
  have T: "P @ concat (chain_records n (c # c' # cs)) @ R
           = P @ make_record (n + 1) c @ (concat (chain_records (n + 1) (c' # cs)) @ R)"
    by simp
  have T': "(P @ make_record (n + 1) c) @ concat (chain_records (n + 1) (c' # cs)) @ R
           = P @ make_record (n + 1) c @ (concat (chain_records (n + 1) (c' # cs)) @ R)"
    by simp
  have "string_loop (P @ concat (chain_records n (c # c' # cs)) @ R) (seen, acc, n)
        = string_loop (P @ make_record (n + 1) c @ (concat (chain_records (n + 1) (c' # cs)) @ R))
            (n # seen, acc @ [c], n + 1)"
    unfolding T by (rule string_loop_Continue [OF it])
  also have "\<dots> = Inr (concat (acc @ [c]) @ concat (c' # cs))"
    using ih unfolding T' .
  finally show ?case by simp
qed

lemma string_iteration_append_Done:
  "string_iteration T st = Done (Inr x) \<Longrightarrow> string_iteration (T @ E) st = Done (Inr x)"
  by (cases st) (auto simp: string_iteration_def readU32_def Let_def split: if_splits)

lemma string_iteration_append_Continue:
  "string_iteration T st = Continue st' \<Longrightarrow> string_iteration (T @ E) st = Continue st'"
  by (cases st) (auto simp: string_iteration_def readU32_def Let_def split: if_splits)

lemma string_loop_append:
  "string_loop T st = Inr x \<Longrightarrow> string_loop (T @ E) st = Inr x"
proof (induction T st rule: string_loop.induct)
  case (1 strs st)
  show ?case
  proof (cases "string_iteration strs st")
    case (Done r)
    with "1.prems" have "r = Inr x" by (simp add: string_loop_Done)
    with Done have "string_iteration (strs @ E) st = Done (Inr x)"
      by (simp add: string_iteration_append_Done)
    then show ?thesis by (rule string_loop_Done)
  next
    case (Continue st')
    with "1.prems" have "string_loop strs st' = Inr x" by (simp add: string_loop_Continue)
    with Continue "1.IH" have "string_loop (strs @ E) st' = Inr x" by simp
    moreover from Continue have "string_iteration (strs @ E) st = Continue st'"
      by (rule string_iteration_append_Continue)
    ultimately show ?thesis by (simp add: string_loop_Continue)
  qed
qed


lemma length_chain_records: "length (chain_records n cs) = length cs"
  by (induction n cs rule: chain_records.induct) auto

lemma chain_records_64:
  "good_chunks cs \<Longrightarrow> list_all (\<lambda>r. length r = 64) (chain_records n cs)"
  by (induction n cs rule: chain_records.induct) (auto simp: length_make_record)

lemma add_miss:
  assumes "stb_cache stb cacheKey = None" and "t \<noteq> []"
  shows "add stb t cacheKey =
           (length (stb_records stb),
            \<lparr>stb_records = stb_records stb @ chain_records (length (stb_records stb)) (chunk_loop t 0),
             stb_cache = (stb_cache stb)(cacheKey \<mapsto> length (stb_records stb))\<rparr>)"
  using assms recs_chain_records [of "chunk_loop t 0" "length (stb_records stb)"]
  by (simp add: add_def Let_def)

lemma add_hit:
  assumes "stb_cache stb cacheKey = Some i" and "t \<noteq> []"
  shows "add stb t cacheKey = (i, stb)"
  using assms by (simp add: add_def)

lemma add_decodes:
  assumes inv: "stb_inv f stb" and f: "f cacheKey = t" and ne: "t \<noteq> []" and nz: "0 \<notin> set t"
    and ad: "add stb t cacheKey = (i, stb')"
    and bound: "length (stb_records stb') \<le> 2147483648"
  shows "stb_inv f stb' \<and> string_loop (build_strings stb') ([], [], i) = Inr t"
proof (cases "stb_cache stb cacheKey")
  case (Some j)
  with ad ne have "i = j" "stb' = stb" by (simp_all add: add_hit)
  with inv Some f show ?thesis by (simp add: stb_inv_def)
next
  case None
  let ?rs = "stb_records stb"
  let ?n = "length ?rs"
  let ?cs = "chunk_loop t 0"
  from ad None ne have i: "i = ?n"
    and stb': "stb' = \<lparr>stb_records = ?rs @ chain_records ?n ?cs,
                          stb_cache = (stb_cache stb)(cacheKey \<mapsto> ?n)\<rparr>"
    by (auto simp: add_miss)
  from ne nz have good: "good_chunks ?cs" by (intro good_chunk_loop) simp_all
  have cc: "concat ?cs = t" by (simp add: concat_chunk_loop)
  from inv have r64: "list_all (\<lambda>r. length r = 64) ?rs" by (simp add: stb_inv_def)
  have P: "length (concat ?rs) = ?n * 64" using r64 by (rule length_concat_recs)
  from bound stb' have b: "?n + length ?cs \<le> 2147483648"
    by (simp add: length_chain_records)
  have "string_loop (concat ?rs @ concat (chain_records ?n ?cs) @ []) ([], [], ?n)
          = Inr (concat [] @ concat ?cs)"
    by (rule decode_chain [OF good P _ b]) simp
  then have dec: "string_loop (build_strings stb') ([], [], i) = Inr t"
    by (simp add: build_strings_def stb' i cc)
  have r64': "list_all (\<lambda>r. length r = 64) (stb_records stb')"
    using r64 chain_records_64 [OF good, of ?n] by (simp add: stb')
  have cache: "\<forall>k j. stb_cache stb' k = Some j \<longrightarrow>
                 string_loop (build_strings stb') ([], [], j) = Inr (f k)"
  proof (intro allI impI)
    fix k j assume kj: "stb_cache stb' k = Some j"
    show "string_loop (build_strings stb') ([], [], j) = Inr (f k)"
    proof (cases "k = cacheKey")
      case True
      with kj stb' i have "j = i" by simp
      with dec True f show ?thesis by simp
    next
      case False
      with kj stb' have "stb_cache stb k = Some j" by simp
      with inv have "string_loop (build_strings stb) ([], [], j) = Inr (f k)"
        by (simp add: stb_inv_def)
      then have "string_loop (build_strings stb @ concat (chain_records ?n ?cs)) ([], [], j) = Inr (f k)"
        by (rule string_loop_append)
      then show ?thesis by (simp add: build_strings_def stb')
    qed
  qed
  from r64' cache dec show ?thesis by (simp add: stb_inv_def)
qed

lemma stb_inv_new: "stb_inv f new_StringTableBuilder"
  by (simp add: stb_inv_def new_StringTableBuilder_def rec0_def length_packU32)

lemma stringBytes_fresh:
  "arc_stringCache arc i = None \<Longrightarrow> fst (stringBytes arc i) = string_loop (arc_strings arc) ([], [], i)"
  by (simp add: stringBytes_def split: sum.splits)

text \<open>
  Claim C8. A non-empty byte string \<open>t\<close> without NUL is added to a string-table builder
  (any state that satisfies the builder's invariant, such as a new builder; the cache key
  is one whose text is \<open>t\<close>; the record indices stay within the 31 bits of a header).
  Decoding the returned first-record index against the built table yields \<open>t\<close>. On a
  cache miss the builder has appended one record per 60-byte chunk, each header being
  \<open>0x80000000\<close> or-ed with the index of the next record, 0 on the last chunk.
\<close>

theorem string_table_roundtrip:
  assumes inv: "stb_inv f stb" and f: "f cacheKey = t" and ne: "t \<noteq> []" and nz: "0 \<notin> set t"
    and ad: "add stb t cacheKey = (i, stb')"
    and bound: "length (stb_records stb') \<le> 2147483648"
    and arc: "arc_strings arc = build_strings stb'" "arc_stringCache arc i = None"
  shows "fst (stringBytes arc i) = Inr t
       \<and> stb_inv f stb'
       \<and> (stb_cache stb cacheKey = None \<longrightarrow>
            i = length (stb_records stb)
            \<and> stb_records stb' = stb_records stb @ chain_records i (chunk_loop t 0)
            \<and> concat (chunk_loop t 0) = t \<and> good_chunks (chunk_loop t 0))"
proof -
  from add_decodes [OF inv f ne nz ad bound] arc
  have a: "fst (stringBytes arc i) = Inr t" and b: "stb_inv f stb'"
    by (simp_all add: stringBytes_fresh)
  have c: "stb_cache stb cacheKey = None \<longrightarrow>
            i = length (stb_records stb)
            \<and> stb_records stb' = stb_records stb @ chain_records i (chunk_loop t 0)
            \<and> concat (chunk_loop t 0) = t \<and> good_chunks (chunk_loop t 0)"
  proof
    assume "stb_cache stb cacheKey = None"
    from add_miss [OF this ne] ad
    have "i = length (stb_records stb)"
      "stb_records stb' = stb_records stb @ chain_records i (chunk_loop t 0)"
      by auto
    moreover have "concat (chunk_loop t 0) = t" by (simp add: concat_chunk_loop)
    moreover from ne nz have "good_chunks (chunk_loop t 0)" by (intro good_chunk_loop) simp_all
    ultimately show "i = length (stb_records stb)
            \<and> stb_records stb' = stb_records stb @ chain_records i (chunk_loop t 0)
            \<and> concat (chunk_loop t 0) = t \<and> good_chunks (chunk_loop t 0)" by blast
  qed
  from a b c show ?thesis by blast
qed

theorem string_table_roundtrip_witness:
  "fst (stringBytes
          (memory_archive [] (build_strings (snd (add new_StringTableBuilder [0x61, 0x62] [0x61, 0x62 :: byte]))))
          (fst (add new_StringTableBuilder [0x61, 0x62] [0x61, 0x62 :: byte])))
     = Inr [0x61, 0x62]
   \<and> fst (add new_StringTableBuilder [0x61, 0x62] [0x61, 0x62 :: byte]) = 1"
proof -
  let ?t = "[0x61, 0x62 :: byte]"
  let ?new = "new_StringTableBuilder :: (byte list) StringTableBuilder"
  obtain i stb' where ad: "add ?new ?t ?t = (i, stb')" by (cases "add ?new ?t ?t") auto
  have miss: "stb_cache ?new ?t = None" by (simp add: new_StringTableBuilder_def)
  have cl: "chunk_loop ?t 0 = [?t]"
    by (simp add: chunk_loop_unfold chunk_loop_done)
  from add_miss [OF miss, of ?t] ad cl
  have i: "i = 1" and recs: "stb_records stb' = [rec0, make_record 0 ?t]"
    by (auto simp: new_StringTableBuilder_def)
  have bound: "length (stb_records stb') \<le> 2147483648" by (simp add: recs)
  have arc: "arc_strings (memory_archive [] (build_strings stb')) = build_strings stb'"
    "arc_stringCache (memory_archive [] (build_strings stb')) i = None"
    by (simp_all add: memory_archive_def)
  from string_table_roundtrip [where f = id and cacheKey = ?t and t = ?t and stb = ?new
        and i = i and stb' = stb' and arc = "memory_archive [] (build_strings stb')"]
    stb_inv_new [of id] ad bound arc
  have "fst (stringBytes (memory_archive [] (build_strings stb')) i) = Inr ?t" by simp
  with ad i show ?thesis by simp
qed

section \<open>Repack: the FAT chains and the meta records\<close>

lemma push_fat_upto:
  "fold (\<lambda>b (cur, fatE). (cur + 1, fatE @ [if b < k then cur + 1 else 0xffffffff])) [0..<m] (c, fe)
   = (c + m, fe @ map (\<lambda>b. if b < k then c + b + 1 else 0xffffffff) [0..<m])"
  by (induction m) auto

lemma push_fat_eq:
  "push_fat k (c, fe) = (c + k, fe @ map (\<lambda>b. if b < k - 1 then c + b + 1 else 0xffffffff) [0..<k])"
  unfolding push_fat_def by (rule push_fat_upto)

lemma enqueueWrite_fields:
  "totalRawSize (enqueueWrite buf s) = totalRawSize s"
  "currentBlock (enqueueWrite buf s) = currentBlock s"
  "fatEntries (enqueueWrite buf s) = fatEntries s"
  "startBlocks (enqueueWrite buf s) = startBlocks s"
  "wrappedSizes (enqueueWrite buf s) = wrappedSizes s"
  by (simp_all add: enqueueWrite_def Let_def)

lemma flushWrites_fields:
  "currentBlock (flushWrites s) = currentBlock s"
  "fatEntries (flushWrites s) = fatEntries s"
  "startBlocks (flushWrites s) = startBlocks s"
  "wrappedSizes (flushWrites s) = wrappedSizes s"
  by (simp_all add: flushWrites_def)

lemma repack_result_fields:
  "fatEntries (repack_result sched s r) =
     fatEntries s @ map (\<lambda>b. if b < (length (cf_wrapped r) + 511) div 512 - 1
                              then currentBlock s + b + 1 else 0xffffffff)
                        [0..<(length (cf_wrapped r) + 511) div 512]"
  "currentBlock (repack_result sched s r) = currentBlock s + (length (cf_wrapped r) + 511) div 512"
  "wrappedSizes (repack_result sched s r) =
     array_set (wrappedSizes s) (original_index sched (cf_index r)) (length (cf_wrapped r))"
  "startBlocks (repack_result sched s r) =
     array_set (startBlocks s) (original_index sched (cf_index r)) (currentBlock s)"
  by (simp_all add: repack_result_def Let_def push_fat_eq enqueueWrite_fields DAT_BLOCK_SIZE_def
        ac_simps split: prod.splits cong: if_cong)


lemma file_chain_append: "file_chain fe st sz \<Longrightarrow> file_chain (fe @ ext) st sz"
  by (auto simp: file_chain_def nth_append)

lemma file_chain_new:
  assumes "fe \<noteq> []"
  shows "file_chain (fe @ map (\<lambda>b. if b < (sz + 511) div 512 - 1 then length fe + b + 1 else 0xffffffff)
                           [0..<(sz + 511) div 512]) (length fe) sz"
proof -
  from assms have "1 \<le> length fe" by (cases fe) auto
  then show ?thesis by (auto simp: file_chain_def nth_append)
qed

lemma repack_inv_init: "repack_inv n sched [] (repack_init n)"
  by (simp add: repack_inv_def repack_init_def)

lemma repack_inv_step:
  assumes inv: "repack_inv n sched rs s"
    and i: "original_index sched (cf_index r) = Some i" "i < n"
    and fresh: "\<forall>r'\<in>set rs. original_index sched (cf_index r') \<noteq> Some i"
  shows "repack_inv n sched (rs @ [r]) (repack_result sched s r)"
proof -
  let ?s' = "repack_result sched s r"
  let ?B = "(length (cf_wrapped r) + 511) div 512"
  from inv have cb: "currentBlock s = length (fatEntries s)" and ne: "fatEntries s \<noteq> []"
    and z: "fatEntries s ! 0 = 0"
    and ls: "length (startBlocks s) = n" and lw: "length (wrappedSizes s) = n"
    by (simp_all add: repack_inv_def)
  have fe: "fatEntries ?s' = fatEntries s @ map (\<lambda>b. if b < ?B - 1 then length (fatEntries s) + b + 1
                                                    else 0xffffffff) [0..<?B]"
    by (simp add: repack_result_fields cb)
  have ws: "wrappedSizes ?s' = (wrappedSizes s)[i := Some (length (cf_wrapped r))]"
    using i lw by (simp add: repack_result_fields array_set_def)
  have sb: "startBlocks ?s' = (startBlocks s)[i := Some (length (fatEntries s))]"
    using i ls by (simp add: repack_result_fields array_set_def cb)
  have a: "currentBlock ?s' = length (fatEntries ?s')"
    by (simp add: fe) (simp add: repack_result_fields cb)
  have b: "fatEntries ?s' \<noteq> []" "fatEntries ?s' ! 0 = 0"
    using ne z by (simp_all add: fe nth_append)
  have c: "length (startBlocks ?s') = n" "length (wrappedSizes ?s') = n"
    using ls lw by (simp_all add: ws sb)
  have new: "wrappedSizes ?s' ! i = Some (length (cf_wrapped r))
       \<and> startBlocks ?s' ! i = Some (length (fatEntries s))
       \<and> file_chain (fatEntries ?s') (length (fatEntries s)) (length (cf_wrapped r))"
    using i lw ls file_chain_new [OF ne, of "length (cf_wrapped r)"]
    by (simp add: ws sb fe)
  have old: "\<exists>i' st. original_index sched (cf_index r') = Some i' \<and> i' < n \<and>
         wrappedSizes ?s' ! i' = Some (length (cf_wrapped r')) \<and>
         startBlocks ?s' ! i' = Some st \<and>
         file_chain (fatEntries ?s') st (length (cf_wrapped r'))" if r': "r' \<in> set rs" for r'
  proof -
    from inv r' obtain i' st where o: "original_index sched (cf_index r') = Some i'" "i' < n"
      "wrappedSizes s ! i' = Some (length (cf_wrapped r'))" "startBlocks s ! i' = Some st"
      "file_chain (fatEntries s) st (length (cf_wrapped r'))"
      unfolding repack_inv_def by blast
    from fresh r' o(1) have ne': "i' \<noteq> i" by auto
    from o(5) have "file_chain (fatEntries ?s') st (length (cf_wrapped r'))"
      unfolding fe by (rule file_chain_append)
    with o ne' show ?thesis by (auto simp: ws sb)
  qed
  show ?thesis
    unfolding repack_inv_def
    using a b c new old i by auto
qed

lemma fold_snoc_step: "fold f (xs @ [x]) s = f x (fold f xs s)"
  by simp

lemma repack_inv_fold:
  assumes "\<forall>r\<in>set rs. \<exists>i<n. original_index sched (cf_index r) = Some i"
    and "distinct (map (\<lambda>r. original_index sched (cf_index r)) rs)"
  shows "repack_inv n sched rs (fold (\<lambda>result s. repack_result sched s result) rs (repack_init n))"
  using assms
proof (induction rs rule: rev_induct)
  case Nil
  show ?case by (simp add: repack_inv_init)
next
  case (snoc r rs)
  from snoc.prems have inv: "repack_inv n sched rs (fold (\<lambda>result s. repack_result sched s result) rs (repack_init n))"
    by (intro snoc.IH) auto
  from snoc.prems(1) obtain i where i: "i < n" "original_index sched (cf_index r) = Some i" by auto
  from snoc.prems(2) i have fresh: "\<forall>r'\<in>set rs. original_index sched (cf_index r') \<noteq> Some i"
    by (auto simp: image_iff)
  from repack_inv_step [OF inv i(2) i(1) fresh] show ?case by simp
qed

lemma original_index_valid:
  assumes "valid_schedule n sched" and "k < n"
  shows "\<exists>i<n. original_index sched k = Some i"
proof (cases sched)
  case None
  with assms show ?thesis by (simp add: original_index_def)
next
  case (Some p)
  with assms have "length p = n" "set p = {..<n}" by (simp_all add: valid_schedule_def)
  with assms(2) have "p ! k \<in> {..<n}" by (metis nth_mem)
  with Some assms(2) \<open>length p = n\<close> show ?thesis by (simp add: original_index_def)
qed

lemma original_index_inj:
  assumes "valid_schedule n sched" and "k < n" "k' < n"
    and "original_index sched k = original_index sched k'"
  shows "k = k'"
proof (cases sched)
  case None
  with assms show ?thesis by (simp add: original_index_def)
next
  case (Some p)
  with assms have "length p = n" "distinct p" by (simp_all add: valid_schedule_def)
  with assms Some show ?thesis by (simp add: original_index_def nth_eq_iff_index_eq)
qed

lemma original_index_surj:
  assumes "valid_schedule n sched" and "i < n"
  shows "\<exists>k<n. original_index sched k = Some i"
proof (cases sched)
  case None
  with assms show ?thesis by (simp add: original_index_def)
next
  case (Some p)
  with assms have l: "length p = n" and "set p = {..<n}" by (simp_all add: valid_schedule_def)
  with assms(2) have "i \<in> set p" by simp
  then obtain k where "k < length p" "p ! k = i" by (auto simp: in_set_conv_nth)
  with Some l show ?thesis by (auto simp: original_index_def)
qed

lemma drop_concat_fixed:
  "(\<And>x. x \<in> set xs \<Longrightarrow> length (f x) = k) \<Longrightarrow> i \<le> length xs \<Longrightarrow>
   drop (i * k) (concat (map f xs)) = concat (map f (drop i xs))"
proof (induction xs arbitrary: i)
  case Nil
  then show ?case by simp
next
  case (Cons x xs)
  show ?case
  proof (cases i)
    case 0
    then show ?thesis by simp
  next
    case (Suc j)
    with Cons.prems have "drop (j * k) (concat (map f xs)) = concat (map f (drop j xs))"
      by (intro Cons.IH) auto
    moreover from Cons.prems have "length (f x) = k" by simp
    ultimately show ?thesis using Suc by simp
  qed
qed

lemma length_concat_fixed:
  "(\<And>x. x \<in> set xs \<Longrightarrow> length (f x) = k) \<Longrightarrow> length (concat (map f xs)) = length xs * k"
  by (induction xs) auto

lemma readU32_at:
  assumes "drop base buf = pre @ packU32 v @ rest"
  shows "readU32 buf (base + length pre) = Inr (v mod 4294967296)"
proof -
  have "length (drop base buf) = length pre + 4 + length rest"
    unfolding assms by (simp add: length_packU32)
  then have rng: "base + length pre + 4 \<le> length buf" by simp
  have "drop (base + length pre) buf = drop (length pre) (drop base buf)"
    by (simp add: add.commute)
  also have "\<dots> = packU32 v @ rest" unfolding assms by simp
  finally have "take 4 (drop (base + length pre) buf) = packU32 v"
    by (simp add: length_packU32)
  with rng show ?thesis by (simp add: readU32_def le_nat_packU32)
qed

lemma fatNext_concat:
  assumes "b < length xs"
  shows "fatNext (concat (map packU32 xs)) b = Inr (xs ! b mod 4294967296)"
proof -
  let ?buf = "concat (map packU32 xs)"
  have len: "length ?buf = length xs * 4"
    by (rule length_concat_fixed) (simp add: length_packU32)
  have "drop (b * 4) ?buf = concat (map packU32 (drop b xs))"
    using assms by (intro drop_concat_fixed) (simp_all add: length_packU32)
  also have "\<dots> = [] @ packU32 (xs ! b) @ concat (map packU32 (drop (Suc b) xs))"
    using assms by (simp flip: Cons_nth_drop_Suc)
  finally have "readU32 ?buf (b * 4 + length ([] :: byte list)) = Inr (xs ! b mod 4294967296)"
    by (rule readU32_at)
  moreover have "b * 4 + 4 \<le> length ?buf" using assms len by simp
  ultimately show ?thesis by (simp add: fatNext_def)
qed

lemma unpackMetaRecord_concat:
  assumes "i < length ms"
  shows "unpackMetaRecord (concat (map (\<lambda>(f, s, b, x). packMetaRecord f s b x) ms)) (i * 16)
         = (case ms ! i of (f, s, b, x) \<Rightarrow>
              Inr \<lparr>flags = f mod 4294967296, msize = s mod 4294967296,
                   startBlock = b mod 4294967296, extra = x mod 4294967296\<rparr>)"
proof -
  let ?g = "\<lambda>(f, s, b, x). packMetaRecord f s b x"
  let ?buf = "concat (map ?g ms)"
  obtain f s b x where m: "ms ! i = (f, s, b, x)" by (cases "ms ! i") auto
  have l: "\<And>y. length (?g y) = 16" by (auto simp: packMetaRecord_def length_packU32)
  have "drop (i * 16) ?buf = concat (map ?g (drop i ms))"
    using assms by (intro drop_concat_fixed) (simp_all add: l)
  also have "\<dots> = packMetaRecord f s b x @ concat (map ?g (drop (Suc i) ms))"
    using assms m by (simp flip: Cons_nth_drop_Suc)
  finally have d: "drop (i * 16) ?buf =
      packU32 f @ packU32 s @ packU32 b @ packU32 x @ concat (map ?g (drop (Suc i) ms))"
    by (simp add: packMetaRecord_def)
  have r0: "readU32 ?buf (i * 16) = Inr (f mod 4294967296)"
    using readU32_at [of "i * 16" ?buf "[]" f] d by simp
  have r1: "readU32 ?buf (i * 16 + 4) = Inr (s mod 4294967296)"
    using readU32_at [of "i * 16" ?buf "packU32 f" s] d by (simp add: length_packU32)
  have r2: "readU32 ?buf (i * 16 + 8) = Inr (b mod 4294967296)"
    using readU32_at [of "i * 16" ?buf "packU32 f @ packU32 s" b] d by (simp add: length_packU32)
  have r3: "readU32 ?buf (i * 16 + 12) = Inr (x mod 4294967296)"
    using readU32_at [of "i * 16" ?buf "packU32 f @ packU32 s @ packU32 b" x] d
    by (simp add: length_packU32)
  show ?thesis
    by (simp add: unpackMetaRecord_def r0 r1 r2 r3 bindE_def m)
qed

lemma is_chain_consecutive:
  "(\<And>j. j + 1 < B \<Longrightarrow> fatNext fb (st + j) = Inr (st + j + 1) \<and> st + j + 1 \<noteq> 0xffffffff) \<Longrightarrow>
   is_chain fb [st..<st + B]"
proof (induction B arbitrary: st)
  case 0
  show ?case by simp
next
  case (Suc B)
  show ?case
  proof (cases B)
    case 0
    then show ?thesis by simp
  next
    case (Suc B')
    have step: "is_chain fb [Suc st..<Suc st + B]"
    proof (rule Suc.IH)
      fix j assume "j + 1 < B"
      then have "(j + 1) + 1 < Suc B" by simp
      from Suc.prems [OF this] show "fatNext fb (Suc st + j) = Inr (Suc st + j + 1) \<and> Suc st + j + 1 \<noteq> 0xffffffff"
        by simp
    qed
    have first: "fatNext fb st = Inr (Suc st) \<and> Suc st \<noteq> 0xffffffff"
      using Suc.prems [of 0] Suc by simp
    have "[st..<st + Suc B] = st # Suc st # [Suc (Suc st)..<st + Suc B]"
      using Suc by (simp add: upt_conv_Cons)
    moreover have "[Suc st..<Suc st + B] = Suc st # [Suc (Suc st)..<st + Suc B]"
      using Suc by (simp add: upt_conv_Cons)
    ultimately show ?thesis using step first by simp
  qed
qed


lemma repack_metaData_record:
  assumes "i < n"
  shows "unpackMetaRecord (repack_metaData n s) (i * 16) =
           Inr \<lparr>flags = 1, msize = to_uint32 (array_get (wrappedSizes s) i) mod 4294967296,
                startBlock = to_uint32 (array_get (startBlocks s) i) mod 4294967296, extra = 0\<rparr>"
proof -
  let ?ms = "map (\<lambda>i. (1::nat, to_uint32 (array_get (wrappedSizes s) i),
                         to_uint32 (array_get (startBlocks s) i), 0::nat)) [0..<n]"
  have "repack_metaData n s = concat (map (\<lambda>(f, s, b, x). packMetaRecord f s b x) ?ms)"
    by (simp add: repack_metaData_def comp_def)
  moreover have "i < length ?ms" using assms by simp
  ultimately show ?thesis using assms
    by (simp only: unpackMetaRecord_concat) simp
qed

text \<open>
  Claim C3. Phase 3 of repack consumes the compression results of \<open>n\<close> files (each index
  once, in any order of arrival, with or without the size-schedule permutation) and
  phase 4 serialises the meta records and the FAT. FAT entry 0 is 0. For each file \<open>i\<close>,
  meta record \<open>i\<close> is \<open>(flags = 1, size = wrapped size, start_block, extra = 0)\<close>, and the
  chain from its start block is \<open>\<lceil>size / 512\<rceil>\<close> consecutive blocks inside the FAT, each entry
  pointing to the next block and the last one holding \<open>0xFFFFFFFF\<close>. Sizes and block
  numbers fit their 32-bit fields.
\<close>

theorem repack_accounting:
  assumes idx: "distinct (map cf_index results)" "set (map cf_index results) = {..<n}"
    and sched: "valid_schedule n sched"
    and sizes: "\<forall>r\<in>set results. length (cf_wrapped r) < 2 ^ 32"
    and s: "s = repack_phase3 n sched results"
    and blocks: "length (fatEntries s) < 2 ^ 32"
  shows "fatNext (repack_fatData s) 0 = Inr 0
       \<and> (\<forall>i<n. \<exists>r\<in>set results. \<exists>st.
              original_index sched (cf_index r) = Some i
            \<and> unpackMetaRecord (repack_metaData n s) (i * META_SIZE) =
                Inr \<lparr>flags = 1, msize = length (cf_wrapped r), startBlock = st, extra = 0\<rparr>
            \<and> 1 \<le> st
            \<and> st + (length (cf_wrapped r) + 511) div 512 \<le> length (repack_fatData s) div 4
            \<and> is_chain (repack_fatData s) [st..<st + (length (cf_wrapped r) + 511) div 512]
            \<and> (0 < length (cf_wrapped r) \<longrightarrow>
                 fatNext (repack_fatData s) (st + (length (cf_wrapped r) + 511) div 512 - 1)
                   = Inr 0xffffffff))"
proof -
  let ?o = "\<lambda>r. original_index sched (cf_index r)"
  let ?fd = "repack_fatData s"
  let ?fe = "fatEntries s"
  have in_n: "\<And>r. r \<in> set results \<Longrightarrow> cf_index r < n" using idx(2) by auto
  have ex: "\<forall>r\<in>set results. \<exists>i<n. ?o r = Some i"
    using original_index_valid [OF sched] in_n by blast
  have "inj_on ?o (set results)"
  proof (rule inj_onI)
    fix r r' assume r: "r \<in> set results" "r' \<in> set results" and e: "?o r = ?o r'"
    from original_index_inj [OF sched in_n [OF r(1)] in_n [OF r(2)] e]
    have "cf_index r = cf_index r'" .
    with idx(1) r show "r = r'" by (simp add: distinct_map inj_on_def)
  qed
  with idx(1) have dist: "distinct (map ?o results)"
    by (simp add: distinct_map)
  have inv: "repack_inv n sched results s"
    using repack_inv_fold [OF ex dist]
    by (simp add: s repack_phase3_def repack_inv_def flushWrites_fields)
  have fl: "length ?fd = length ?fe * 4"
    unfolding repack_fatData_def by (rule length_concat_fixed) (simp add: length_packU32)
  from inv have ne: "?fe \<noteq> []" and z: "?fe ! 0 = 0"
    and lw: "length (wrappedSizes s) = n" and ls: "length (startBlocks s) = n"
    by (simp_all add: repack_inv_def)
  have fat0: "fatNext ?fd 0 = Inr 0"
    using fatNext_concat [of 0 ?fe] ne z by (simp add: repack_fatData_def)
  have files: "\<exists>r\<in>set results. \<exists>st.
              original_index sched (cf_index r) = Some i
            \<and> unpackMetaRecord (repack_metaData n s) (i * META_SIZE) =
                Inr \<lparr>flags = 1, msize = length (cf_wrapped r), startBlock = st, extra = 0\<rparr>
            \<and> 1 \<le> st
            \<and> st + (length (cf_wrapped r) + 511) div 512 \<le> length ?fd div 4
            \<and> is_chain ?fd [st..<st + (length (cf_wrapped r) + 511) div 512]
            \<and> (0 < length (cf_wrapped r) \<longrightarrow>
                 fatNext ?fd (st + (length (cf_wrapped r) + 511) div 512 - 1) = Inr 0xffffffff)"
    if i: "i < n" for i
  proof -
    from original_index_surj [OF sched i] obtain k where k: "k < n" "original_index sched k = Some i"
      by blast
    from k(1) idx(2) have "k \<in> cf_index ` set results" by simp
    then obtain r where r: "r \<in> set results" "cf_index r = k" by auto
    let ?sz = "length (cf_wrapped r)"
    let ?B = "(?sz + 511) div 512"
    from inv r k obtain st where w: "wrappedSizes s ! i = Some ?sz" and b: "startBlocks s ! i = Some st"
      and ch: "file_chain ?fe st ?sz"
      unfolding repack_inv_def by fastforce
    from ch have st1: "1 \<le> st" and rng: "st + ?B \<le> length ?fe"
      and ent: "\<And>j. j < ?B \<Longrightarrow> ?fe ! (st + j) = (if j < ?B - 1 then st + j + 1 else 0xffffffff)"
      by (simp_all add: file_chain_def)
    from rng blocks have stb: "st < 4294967296" by simp
    from sizes r have szb: "?sz < 4294967296" by simp
    have m: "unpackMetaRecord (repack_metaData n s) (i * META_SIZE) =
                Inr \<lparr>flags = 1, msize = ?sz, startBlock = st, extra = 0\<rparr>"
      using i w b lw ls stb szb
      by (simp add: META_SIZE_def repack_metaData_record array_get_def to_uint32_def)
    have link: "fatNext ?fd (st + j) = Inr (st + j + 1) \<and> st + j + 1 \<noteq> 0xffffffff"
      if j: "j + 1 < ?B" for j
    proof -
      from j rng have in_range: "st + j < length ?fe" and v: "st + j + 1 < length ?fe" by simp_all
      from j have jb: "j < ?B - 1" by (simp only: less_diff_conv)
      from j have "j < ?B" by simp
      from ent [OF this] jb have "?fe ! (st + j) = st + j + 1" by (simp only: if_True)
      moreover from v blocks have "st + j + 1 < 4294967295" by simp
      ultimately show ?thesis
        using fatNext_concat [OF in_range] by (simp add: repack_fatData_def)
    qed
    have chain: "is_chain ?fd [st..<st + ?B]"
      by (rule is_chain_consecutive) (rule link)
    have last: "fatNext ?fd (st + ?B - 1) = Inr 0xffffffff" if "0 < ?sz"
    proof -
      have B: "0 < ?B"
      proof (rule ccontr)
        assume "\<not> 0 < ?B"
        then have "?sz + 511 < 1 * 512" by (simp only: div_less_iff_less_mult zero_less_numeral)
        with that show False by simp
      qed
      then have in_range: "st + (?B - 1) < length ?fe" using rng by simp
      from B have "?fe ! (st + (?B - 1)) = 0xffffffff" using ent [of "?B - 1"] by simp
      with fatNext_concat [OF in_range] B show ?thesis by (simp add: repack_fatData_def)
    qed
    from rng fl have cnt: "st + ?B \<le> length ?fd div 4" by simp
    from r(1) k(2) r(2) m st1 cnt chain last show ?thesis by blast
  qed
  from fat0 files show ?thesis by blast
qed

theorem repack_accounting_witness:
  "fatNext (repack_fatData (repack_phase3 2 None two_results)) 0 = Inr 0
   \<and> fatEntries (repack_phase3 2 None two_results) = [0, 2, 0xffffffff, 0xffffffff]
   \<and> startBlocks (repack_phase3 2 None two_results) = [Some 3, Some 1]
   \<and> wrappedSizes (repack_phase3 2 None two_results) = [Some 40, Some 600]"
proof -
  let ?s = "repack_phase3 2 None two_results"
  have fe: "fatEntries ?s = [0, 2, 0xffffffff, 0xffffffff]"
    by (simp add: repack_phase3_def flushWrites_fields repack_result_fields two_results_def
          repack_init_def upt_rec)
  have sb: "startBlocks ?s = [Some 3, Some 1]"
    by (simp add: repack_phase3_def flushWrites_fields repack_result_fields two_results_def
          repack_init_def array_set_def original_index_def numeral_2_eq_2 numeral_3_eq_3)
  have ws: "wrappedSizes ?s = [Some 40, Some 600]"
    by (simp add: repack_phase3_def flushWrites_fields repack_result_fields two_results_def
          repack_init_def array_set_def original_index_def numeral_2_eq_2 numeral_3_eq_3)
  have idx: "distinct (map cf_index two_results)" "set (map cf_index two_results) = {..<2}"
    by (auto simp: two_results_def)
  have sched: "valid_schedule 2 None" by (simp add: valid_schedule_def)
  have sizes: "\<forall>r\<in>set two_results. length (cf_wrapped r) < 2 ^ 32"
    by (simp add: two_results_def)
  have blocks: "length (fatEntries ?s) < 2 ^ 32" by (simp add: fe)
  from repack_accounting [OF idx sched sizes refl blocks]
  have "fatNext (repack_fatData ?s) 0 = Inr 0" by blast
  with fe sb ws show ?thesis by simp
qed

end
